theory Spec2Isabelle
  imports Complex_Main "HOL-Library.AList"
begin

section \<open>Python values shared by the modules\<close>

text \<open>
  The exceptions the modelled code can raise. A function that can raise returns a sum
  whose left injection carries the exception.
\<close>

datatype py_error = KeyError | IndexError | TypeError | ZeroDivisionError | ValueError

text \<open>
  Python compares tuples of integers lexicographically, a proper prefix being smaller.
  Every evaluator below returns such a tuple, modelled as a list of integers.
\<close>

fun tuple_lt :: "int list \<Rightarrow> int list \<Rightarrow> bool" where
  "tuple_lt [] [] = False"
| "tuple_lt [] (y # ys) = True"
| "tuple_lt (x # xs) [] = False"
| "tuple_lt (x # xs) (y # ys) = (x < y \<or> (x = y \<and> tuple_lt xs ys))"

text \<open>
  Slicing \<open>xs[:n]\<close> and \<open>xs[n:]\<close> cut the list at the same point: \<open>n\<close> itself when it is
  not negative (clamped by \<open>take\<close> and \<open>drop\<close>), \<open>len(xs) + n\<close> (or 0) when it is.
\<close>

definition slice_point :: "int \<Rightarrow> 'a list \<Rightarrow> nat" where
  "slice_point n xs = (if n < 0 then nat (int (length xs) + n) else nat n)"

section \<open>cards.py\<close>

datatype rank = King | Three | Knight | Jack | Seven | Six | Five | Four | Two | Ace

datatype suit = Oros | Copas | Espadas | Bastos

definition RANKS :: "rank list" where
  "RANKS = [King, Three, Knight, Jack, Seven, Six, Five, Four, Two, Ace]"

definition SUITS :: "suit list" where
  "SUITS = [Oros, Copas, Espadas, Bastos]"

fun ORDER :: "rank \<Rightarrow> int" where
  "ORDER King = 9"
| "ORDER Three = 9"
| "ORDER Knight = 8"
| "ORDER Jack = 7"
| "ORDER Seven = 6"
| "ORDER Six = 5"
| "ORDER Five = 4"
| "ORDER Four = 3"
| "ORDER Two = 2"
| "ORDER Ace = 2"

fun VALUES :: "rank \<Rightarrow> int" where
  "VALUES King = 10"
| "VALUES Three = 10"
| "VALUES Knight = 10"
| "VALUES Jack = 10"
| "VALUES Seven = 7"
| "VALUES Six = 6"
| "VALUES Five = 5"
| "VALUES Four = 4"
| "VALUES Two = 1"
| "VALUES Ace = 1"

text \<open>A card stores its rank and suit; \<open>order\<close> and \<open>value\<close> are looked up from the rank.\<close>

datatype card = Card (card_rank: rank) (card_suit: suit)

definition card_order :: "card \<Rightarrow> int" where
  "card_order c = ORDER (card_rank c)"

definition card_value :: "card \<Rightarrow> int" where
  "card_value c = VALUES (card_rank c)"

text \<open>\<open>Deck.__init__\<close>: one card per suit and rank, suits in the outer loop.\<close>

definition Deck_init :: "card list" where
  "Deck_init = concat (map (\<lambda>s. map (\<lambda>r. Card r s) (filter (\<lambda>r. r \<in> set RANKS) RANKS)) SUITS)"

text \<open>
  \<open>Deck.deal(num_cards)\<close> returns \<open>cards[:num_cards]\<close> and keeps \<open>cards[num_cards:]\<close>.
  The pair is (dealt cards, remaining deck). Slicing never raises.
\<close>

definition deal :: "int \<Rightarrow> card list \<Rightarrow> card list \<times> card list" where
  "deal num_cards cards =
     (take (slice_point num_cards cards) cards, drop (slice_point num_cards cards) cards)"

section \<open>hand\_evaluation.py\<close>

text \<open>
  \<open>Counter(iterable)\<close>: a dictionary from element to multiplicity whose keys stand in
  order of first occurrence.
\<close>

definition counter_add :: "'a \<Rightarrow> ('a \<times> nat) list \<Rightarrow> ('a \<times> nat) list" where
  "counter_add x acc =
     AList.update x (case map_of acc x of None \<Rightarrow> 1 | Some c \<Rightarrow> c + 1) acc"

definition Counter :: "'a list \<Rightarrow> ('a \<times> nat) list" where
  "Counter xs = fold counter_add xs []"

definition with_count :: "nat \<Rightarrow> ('a \<times> nat) list \<Rightarrow> 'a list" where
  "with_count n counts = map fst (filter (\<lambda>(r, c). c = n) counts)"

definition evaluate_grande :: "card list \<Rightarrow> int list" where
  "evaluate_grande hand = rev (sort (map card_order hand))"

definition evaluate_chica :: "card list \<Rightarrow> int list" where
  "evaluate_chica hand = sort (map card_order hand)"

definition evaluate_pairs :: "card list \<Rightarrow> int list" where
  "evaluate_pairs hand =
     (let counts = Counter (map card_rank hand);
          pairs = with_count 2 counts;
          triples = with_count 3 counts;
          quads = with_count 4 counts
      in case quads of
           q # _ \<Rightarrow> [3, ORDER q]
         | [] \<Rightarrow>
            (case triples of
               t # _ \<Rightarrow> [2, ORDER t]
             | [] \<Rightarrow>
                if length pairs = 2 then 3 # rev (sort (map ORDER pairs))
                else (case pairs of
                        [p] \<Rightarrow> [1, ORDER p]
                      | _ \<Rightarrow> [0])))"

definition juego_ranking :: "(int \<times> int) list" where
  "juego_ranking = [(31, 8), (32, 7), (40, 6), (37, 5), (36, 4), (35, 3), (34, 2), (33, 1)]"

definition hand_total :: "card list \<Rightarrow> int" where
  "hand_total hand = sum_list (map card_value hand)"

definition evaluate_juego :: "card list \<Rightarrow> int list" where
  "evaluate_juego hand =
     (let total = hand_total hand
      in if total \<ge> 31
         then [1, (case map_of juego_ranking total of Some r \<Rightarrow> r | None \<Rightarrow> 0)]
         else [0, total])"

section \<open>The random module\<close>

text \<open>
  The state of Python's \<open>random\<close> module is an infinite stream of raw draws, given as a
  function from positions to naturals. Every call consumes the draw at position 0.
  \<open>random.shuffle\<close> walks the list from its last index down to 1 and swaps each position
  with one drawn at or below it; \<open>random.choice\<close> indexes the sequence with one draw;
  \<open>random.random()\<close> is a multiple of \<open>2\<^sup>-\<^sup>5\<^sup>3\<close> in the unit interval.
\<close>

type_synonym rng = "nat \<Rightarrow> nat"

definition rng_tail :: "rng \<Rightarrow> rng" where
  "rng_tail r = (\<lambda>i. r (Suc i))"

definition randbelow :: "nat \<Rightarrow> rng \<Rightarrow> nat \<times> rng" where
  "randbelow n r = (r 0 mod n, rng_tail r)"

definition random_choice :: "'a list \<Rightarrow> rng \<Rightarrow> 'a \<times> rng" where
  "random_choice xs r = (xs ! (fst (randbelow (length xs) r)), snd (randbelow (length xs) r))"

definition random_random :: "rng \<Rightarrow> rat \<times> rng" where
  "random_random r = (of_nat (r 0 mod 2 ^ 53) / 2 ^ 53, rng_tail r)"

fun shuffle_from :: "nat \<Rightarrow> 'a list \<Rightarrow> rng \<Rightarrow> 'a list \<times> rng" where
  "shuffle_from 0 xs r = (xs, r)"
| "shuffle_from (Suc i) xs r =
     (let j = fst (randbelow (Suc i + 1) r)
      in shuffle_from i (xs[Suc i := xs ! j, j := xs ! Suc i]) (snd (randbelow (Suc i + 1) r)))"

definition shuffle :: "'a list \<Rightarrow> rng \<Rightarrow> 'a list \<times> rng" where
  "shuffle xs r = shuffle_from (length xs - 1) xs r"

section \<open>game\_logic.py: BettingRound\<close>

text \<open>
  A recorded bet is \<open>None\<close>, an integer or the string \<open>'ordago'\<close>. The two dictionaries of
  a round are association lists in insertion order; assigning to a key keeps its place.
\<close>

datatype bet = Amount int | OrdagoBet

datatype action = Bet | Raise | Call | Pass | Ordago | OtherAction

datatype category = Grande | Chica | Pares | Juego

record betting_round =
  players :: "nat list"
  play_type :: category
  current_bet :: int
  bets :: "(nat \<times> bet option) list"
  active :: "(nat \<times> bool) list"
  last_raiser :: "nat option"
  finished :: bool

definition dict_from_keys :: "'k list \<Rightarrow> 'v \<Rightarrow> ('k \<times> 'v) list" where
  "dict_from_keys ks v = fold (\<lambda>k. AList.update k v) ks []"

definition BettingRound_init :: "nat list \<Rightarrow> category \<Rightarrow> int \<Rightarrow> betting_round" where
  "BettingRound_init ps pt initial_bet =
     \<lparr> players = ps, play_type = pt, current_bet = initial_bet,
       bets = dict_from_keys ps None, active = dict_from_keys ps True,
       last_raiser = None, finished = False \<rparr>"

definition player_action :: "betting_round \<Rightarrow> nat \<Rightarrow> action \<Rightarrow> int \<Rightarrow> py_error + betting_round" where
  "player_action br player act amount =
     (case map_of (active br) player of
        None \<Rightarrow> Inl KeyError
      | Some False \<Rightarrow> Inr br
      | Some True \<Rightarrow>
         Inr (case act of
            Bet \<Rightarrow>
              (let cb = (if current_bet br = 0 then 1 else current_bet br)
               in br\<lparr>current_bet := cb,
                     bets := AList.update player (Some (Amount cb)) (bets br),
                     last_raiser := Some player\<rparr>)
          | Raise \<Rightarrow>
              br\<lparr>current_bet := current_bet br + amount,
                 bets := AList.update player (Some (Amount (current_bet br + amount))) (bets br),
                 last_raiser := Some player\<rparr>
          | Call \<Rightarrow>
              br\<lparr>bets := AList.update player (Some (Amount (current_bet br))) (bets br)\<rparr>
          | Pass \<Rightarrow>
              br\<lparr>active := AList.update player False (active br)\<rparr>
          | Ordago \<Rightarrow>
              br\<lparr>bets := AList.update player (Some OrdagoBet) (bets br), finished := True\<rparr>
          | OtherAction \<Rightarrow> br))"

definition active_players :: "betting_round \<Rightarrow> nat list" where
  "active_players br = map fst (filter snd (active br))"

text \<open>The numeric bets of the given players; \<open>bets[p]\<close> raises on a missing key.\<close>

fun active_bets :: "(nat \<times> bet option) list \<Rightarrow> nat list \<Rightarrow> py_error + int list" where
  "active_bets bs [] = Inr []"
| "active_bets bs (p # ps) =
     (case map_of bs p of
        None \<Rightarrow> Inl KeyError
      | Some None \<Rightarrow> active_bets bs ps
      | Some (Some OrdagoBet) \<Rightarrow> active_bets bs ps
      | Some (Some (Amount n)) \<Rightarrow>
          (case active_bets bs ps of Inl e \<Rightarrow> Inl e | Inr ns \<Rightarrow> Inr (n # ns)))"

definition is_round_complete :: "betting_round \<Rightarrow> py_error + bool" where
  "is_round_complete br =
     (if length (active_players br) \<le> 1 then Inr True
      else case active_bets (bets br) (active_players br) of
             Inl e \<Rightarrow> Inl e
           | Inr ab \<Rightarrow> Inr (ab \<noteq> [] \<and> length (remdups ab) = 1))"

text \<open>
  \<open>max(d, key=d.get)\<close> and \<open>min\<close> keep the first extremal key: the candidate is replaced
  only by a strictly better value (\<open>better new old\<close>).
\<close>

fun first_best :: "('v \<Rightarrow> 'v \<Rightarrow> bool) \<Rightarrow> 'k \<times> 'v \<Rightarrow> ('k \<times> 'v) list \<Rightarrow> 'k" where
  "first_best better (k, v) [] = k"
| "first_best better (k, v) ((k', v') # rest) =
     (if better v' v then first_best better (k', v') rest else first_best better (k, v) rest)"

text \<open>
  The entries that are not \<open>None\<close>. \<open>get_winner\<close> reads them only after its loop found no
  \<open>'ordago'\<close>, so each is an integer.
\<close>

fun valid_bets :: "(nat \<times> bet option) list \<Rightarrow> (nat \<times> int) list" where
  "valid_bets [] = []"
| "valid_bets ((p, Some (Amount n)) # rest) = (p, n) # valid_bets rest"
| "valid_bets ((p, Some OrdagoBet) # rest) = valid_bets rest"
| "valid_bets ((p, None) # rest) = valid_bets rest"

definition get_winner :: "betting_round \<Rightarrow> nat option \<times> bet option" where
  "get_winner br =
     (case find (\<lambda>pb. snd pb = Some OrdagoBet) (bets br) of
        Some pb \<Rightarrow> (Some (fst pb), Some OrdagoBet)
      | None \<Rightarrow>
         (case valid_bets (bets br) of
            [] \<Rightarrow> (None, None)
          | v # vs \<Rightarrow> (Some (first_best (\<lambda>new old. new > old) v vs), Some (Amount (current_bet br)))))"

text \<open>
  A caller's sequence of \<open>player_action\<close> calls on one round: each entry is the player,
  the action and the amount.
\<close>

fun run_actions :: "betting_round \<Rightarrow> (nat \<times> action \<times> int) list \<Rightarrow> py_error + betting_round" where
  "run_actions br [] = Inr br"
| "run_actions br ((p, act, amount) # rest) =
     (case player_action br p act amount of
        Inl e \<Rightarrow> Inl e
      | Inr br' \<Rightarrow> run_actions br' rest)"

section \<open>game\_logic.py: MusGame\<close>

datatype phase = Deal | Mus | Play | Scoring

text \<open>
  The fields of a \<open>MusGame\<close>. \<open>scores\<close> holds the entries for team 0 and team 1.
  \<open>hands_revealed\<close> does not exist before \<open>initial_deal\<close> sets it. The state of the
  \<open>random\<close> module is carried along in \<open>rng\<close>.
\<close>

record game =
  num_players :: nat
  target_score :: int
  deck :: "card list"
  hands :: "(nat \<times> card list) list"
  discard_pile :: "card list"
  current_phase :: phase
  scores :: "int \<times> int"
  mano :: "nat option"
  turn_order :: "nat list"
  current_turn_index :: nat
  play_categories :: "category list"
  play_results :: "(category \<times> nat option \<times> bet option) list"
  ordago_active :: bool
  ordago_player :: "nat option"
  covert_signals :: "(nat \<times> int) list"
  intercepted_signals :: "(nat \<times> nat set) list"
  signal_intercept_chance :: rat
  hands_revealed :: "bool option"
  rng :: rng

text \<open>
  A method either returns a value or raises; both leave a game state behind, the one
  reached when the exception was raised in the second case.
\<close>

datatype 'a result = Done 'a game | Raised py_error game

fun result_state :: "'a result \<Rightarrow> game" where
  "result_state (Done x g) = g"
| "result_state (Raised e g) = g"

definition MusGame_init :: "nat \<Rightarrow> int \<Rightarrow> rat \<Rightarrow> rng \<Rightarrow> game" where
  "MusGame_init n target chance r =
     \<lparr> num_players = n, target_score = target,
       deck = fst (shuffle Deck_init r),
       hands = map (\<lambda>p. (p, [])) [0..<n],
       discard_pile = [], current_phase = Deal, scores = (0, 0), mano = None,
       turn_order = [], current_turn_index = 0, play_categories = [], play_results = [],
       ordago_active = False, ordago_player = None,
       covert_signals = map (\<lambda>p. (p, 0)) [0..<n],
       intercepted_signals = map (\<lambda>p. (p, {})) [0..<n],
       signal_intercept_chance = chance, hands_revealed = None,
       rng = snd (shuffle Deck_init r) \<rparr>"

definition reshuffle_if_short :: "int \<Rightarrow> game \<Rightarrow> game" where
  "reshuffle_if_short n g =
     (if int (length (deck g)) < n
      then g\<lparr>deck := fst (shuffle (deck g @ discard_pile g) (rng g)),
             discard_pile := [],
             rng := snd (shuffle (deck g @ discard_pile g) (rng g))\<rparr>
      else g)"

definition draw_from_deck :: "int \<Rightarrow> game \<Rightarrow> card list \<times> game" where
  "draw_from_deck n g =
     (let g1 = reshuffle_if_short n g
      in (fst (deal n (deck g1)), g1\<lparr>deck := snd (deal n (deck g1))\<rparr>))"

text \<open>The loop of \<open>initial_deal\<close>: \<open>hands[player] = draw_from_deck(4)\<close> for each player.\<close>

fun deal_hands :: "nat list \<Rightarrow> game \<Rightarrow> game" where
  "deal_hands [] g = g"
| "deal_hands (p # ps) g =
     deal_hands ps
       ((snd (draw_from_deck 4 g))\<lparr>hands :=
           AList.update p (fst (draw_from_deck 4 g)) (hands (snd (draw_from_deck 4 g)))\<rparr>)"

fun first_cards :: "(nat \<times> card list) list \<Rightarrow> nat list \<Rightarrow> py_error + (nat \<times> card) list" where
  "first_cards hs [] = Inr []"
| "first_cards hs (p # ps) =
     (case map_of hs p of
        None \<Rightarrow> Inl KeyError
      | Some [] \<Rightarrow> Inl IndexError
      | Some (c # _) \<Rightarrow>
          (case first_cards hs ps of Inl e \<Rightarrow> Inl e | Inr rest \<Rightarrow> Inr ((p, c) # rest)))"

fun scan_mano :: "(nat \<times> card) list \<Rightarrow> int \<Rightarrow> nat option \<Rightarrow> nat option" where
  "scan_mano [] highest mano_player = mano_player"
| "scan_mano ((p, c) # rest) highest mano_player =
     (if card_order c > highest then scan_mano rest (card_order c) (Some p)
      else scan_mano rest highest mano_player)"

definition determine_mano :: "game \<Rightarrow> unit result" where
  "determine_mano g =
     (case first_cards (hands g) [0..<num_players g] of
        Inl e \<Rightarrow> Raised e g
      | Inr drawn_cards \<Rightarrow> Done () (g\<lparr>mano := scan_mano drawn_cards (- 1) None\<rparr>))"

text \<open>
  \<open>[(self.mano + i) % self.num_players for i in range(self.num_players)]\<close>: with no
  player nothing is evaluated; otherwise a missing mano makes the addition raise.
\<close>

definition set_turn_order :: "game \<Rightarrow> unit result" where
  "set_turn_order g =
     (if num_players g = 0 then Done () (g\<lparr>turn_order := [], current_turn_index := 0\<rparr>)
      else case mano g of
             None \<Rightarrow> Raised TypeError g
           | Some m \<Rightarrow>
               Done () (g\<lparr>turn_order := map (\<lambda>i. (m + i) mod num_players g) [0..<num_players g],
                          current_turn_index := 0\<rparr>))"

definition initial_deal :: "game \<Rightarrow> unit result" where
  "initial_deal g =
     (case determine_mano (deal_hands [0..<num_players g] g) of
        Raised e g1 \<Rightarrow> Raised e g1
      | Done _ g1 \<Rightarrow>
          (case set_turn_order g1 of
             Raised e g2 \<Rightarrow> Raised e g2
           | Done _ g2 \<Rightarrow> Done () (g2\<lparr>current_phase := Mus, hands_revealed := Some False\<rparr>)))"

text \<open>
  \<open>perform_discard\<close>: the cards at the given indices leave the hand, as many are drawn,
  and the discarded ones go to the discard pile afterwards.
\<close>

definition perform_discard :: "nat \<Rightarrow> nat list \<Rightarrow> game \<Rightarrow> unit result" where
  "perform_discard player cards_to_discard g =
     (case map_of (hands g) player of
        None \<Rightarrow> Raised KeyError g
      | Some hand \<Rightarrow>
         (let indexed = zip [0..<length hand] hand;
              new_hand = map snd (filter (\<lambda>ic. fst ic \<notin> set cards_to_discard) indexed);
              discarded = map snd (filter (\<lambda>ic. fst ic \<in> set cards_to_discard) indexed);
              g1 = g\<lparr>hands := AList.update player new_hand (hands g)\<rparr>;
              new_cards = fst (draw_from_deck (int (length discarded)) g1);
              g2 = snd (draw_from_deck (int (length discarded)) g1)
          in Done () (g2\<lparr>hands := AList.update player (new_hand @ new_cards) (hands g2),
                         discard_pile := discard_pile g2 @ discarded\<rparr>)))"

text \<open>
  The order in which CPython iterates the set display \<open>{a, b}\<close> of two non-negative
  integers. The set has a table of 8 slots; an integer hashes to itself modulo
  \<open>2\<^sup>6\<^sup>1 - 1\<close> and goes to the slot \<open>hash & 7\<close>. \<open>a\<close> is added first. When \<open>b\<close>
  meets \<open>a\<close>'s slot it is moved along the probe sequence
  \<open>perturb >>= 5; i = (i * 5 + 1 + perturb) & 7\<close>, starting from \<open>perturb = hash\<close>.
  Iteration follows the slots.
\<close>

definition py_hash :: "nat \<Rightarrow> nat" where
  "py_hash n = n mod (2 ^ 61 - 1)"

function probe_slot :: "nat \<Rightarrow> nat \<Rightarrow> nat" where
  "probe_slot occupied perturb =
     (if (5 * occupied + 1 + perturb div 32) mod 8 \<noteq> occupied
      then (5 * occupied + 1 + perturb div 32) mod 8
      else probe_slot occupied (perturb div 32))"
  by pat_completeness auto
termination
proof (relation "measure snd")
  show "wf (measure snd)" by simp
next
  fix occupied perturb :: nat
  assume a: "\<not> (5 * occupied + 1 + perturb div 32) mod 8 \<noteq> occupied"
  have "perturb div 32 \<noteq> 0"
  proof
    assume z: "perturb div 32 = 0"
    with a have e: "(5 * occupied + 1) mod 8 = occupied" by simp
    have "(5 * occupied + 1) mod 8 < 8" by (rule mod_less_divisor) simp
    with e have "occupied < 8" by simp
    then consider "occupied = 0" | "occupied = 1" | "occupied = 2" | "occupied = 3"
      | "occupied = 4" | "occupied = 5" | "occupied = 6" | "occupied = 7" by linarith
    then show False using e by cases simp_all
  qed
  then have "0 < perturb" by (cases "perturb = 0") simp_all
  then have "perturb div 32 < perturb" by (rule div_less_dividend[rotated]) simp
  then show "((occupied, perturb div 32), occupied, perturb) \<in> measure snd" by simp
qed

declare probe_slot.simps [simp del]

definition py_set_pair :: "nat \<Rightarrow> nat \<Rightarrow> nat list" where
  "py_set_pair a b =
     (if a = b then [a]
      else let slot_a = py_hash a mod 8;
               slot_b = (if py_hash b mod 8 \<noteq> slot_a then py_hash b mod 8
                         else probe_slot slot_a (py_hash b))
           in if slot_b < slot_a then [b, a] else [a, b])"

text \<open>
  The team partition: \<open>team0 = {mano, (mano + 2) % num_players}\<close>, iterated as above,
  and \<open>team1 = set(range(num_players)) - team0\<close>, whose elements all lie below the size of
  its table and so come in ascending order.
\<close>

definition teams :: "game \<Rightarrow> py_error + nat list \<times> nat list" where
  "teams g =
     (case mano g of
        None \<Rightarrow> Inl TypeError
      | Some m \<Rightarrow>
          if num_players g = 0 then Inl ZeroDivisionError
          else Inr (py_set_pair m ((m + 2) mod num_players g),
                    filter (\<lambda>p. p \<noteq> m \<and> p \<noteq> (m + 2) mod num_players g) [0..<num_players g]))"

fun intercept_loop :: "nat \<Rightarrow> nat list \<Rightarrow> nat list \<Rightarrow> game \<Rightarrow> nat list result" where
  "intercept_loop player [] interceptors g = Done interceptors g"
| "intercept_loop player (opponent # rest) interceptors g =
     (let g1 = g\<lparr>rng := snd (random_random (rng g))\<rparr>
      in if fst (random_random (rng g)) < signal_intercept_chance g
         then (case map_of (intercepted_signals g1) opponent of
                 None \<Rightarrow> Raised KeyError g1
               | Some s \<Rightarrow>
                   intercept_loop player rest (interceptors @ [opponent])
                     (g1\<lparr>intercepted_signals :=
                           AList.update opponent (insert player s) (intercepted_signals g1)\<rparr>))
         else intercept_loop player rest interceptors g1)"

definition update_covert_signal :: "nat \<Rightarrow> int \<Rightarrow> game \<Rightarrow> nat list result" where
  "update_covert_signal player sig g =
     (if sig = 0 then Done [] (g\<lparr>covert_signals := AList.update player 0 (covert_signals g)\<rparr>)
      else
        (let g1 = g\<lparr>covert_signals := AList.update player sig (covert_signals g)\<rparr>
         in case teams g1 of
              Inl e \<Rightarrow> Raised e g1
            | Inr (team0, team1) \<Rightarrow>
                intercept_loop player (if player \<in> set team0 then team1 else team0) [] g1))"

text \<open>
  The \<open>for\<close> loop inside \<open>run_detailed_betting_round\<close>: every active player takes one
  randomly chosen action; the loop breaks as soon as the round is complete.
\<close>

fun for_players :: "nat list \<Rightarrow> betting_round \<Rightarrow> rng \<Rightarrow> (py_error + betting_round) \<times> rng" where
  "for_players [] br r = (Inr br, r)"
| "for_players (p # ps) br r =
     (case map_of (active br) p of
        None \<Rightarrow> (Inl KeyError, r)
      | Some False \<Rightarrow> for_players ps br r
      | Some True \<Rightarrow>
         (let act = fst (random_choice [Bet, Raise, Call, Pass] r);
              r1 = snd (random_choice [Bet, Raise, Call, Pass] r);
              amount = (if act = Raise then fst (random_choice [1, 2] r1) else 0);
              r2 = (if act = Raise then snd (random_choice [1 :: int, 2] r1) else r1)
          in case player_action br p act amount of
               Inl e \<Rightarrow> (Inl e, r2)
             | Inr br' \<Rightarrow>
                (case is_round_complete br' of
                   Inl e \<Rightarrow> (Inl e, r2)
                 | Inr True \<Rightarrow> (Inr br', r2)
                 | Inr False \<Rightarrow> for_players ps br' r2)))"

text \<open>The \<open>while\<close> loop around it; \<open>None\<close> stands for a loop that never ends.\<close>

partial_function (option) betting_loop ::
  "nat list \<Rightarrow> betting_round \<Rightarrow> rng \<Rightarrow> ((py_error + betting_round) \<times> rng) option" where
  "betting_loop ps br r =
     (if finished br then Some (Inr br, r)
      else case is_round_complete br of
             Inl e \<Rightarrow> Some (Inl e, r)
           | Inr fin \<Rightarrow>
               if fin then Some (Inr br, r)
               else (case fst (for_players ps br r) of
                       Inl e \<Rightarrow> Some (Inl e, snd (for_players ps br r))
                     | Inr br' \<Rightarrow> betting_loop ps br' (snd (for_players ps br r))))"

text \<open>
  The end of \<open>run_detailed_betting_round\<close>, once the loops are over: the winner is read
  off the betting round, an all-in outcome raises the game's flag, and the pair is
  returned.
\<close>

definition settle_round :: "betting_round \<Rightarrow> game \<Rightarrow> (nat option \<times> bet option) \<times> game" where
  "settle_round br g =
     (get_winner br,
      if snd (get_winner br) = Some OrdagoBet
      then g\<lparr>ordago_active := True, ordago_player := fst (get_winner br)\<rparr>
      else g)"

definition run_detailed_betting_round ::
  "category \<Rightarrow> game \<Rightarrow> (nat option \<times> bet option) result option" where
  "run_detailed_betting_round play g =
     (case betting_loop (turn_order g) (BettingRound_init (turn_order g) play 1) (rng g) of
        None \<Rightarrow> None
      | Some (Inl e, r') \<Rightarrow> Some (Raised e (g\<lparr>rng := r'\<rparr>))
      | Some (Inr br, r') \<Rightarrow>
          Some (Done (fst (settle_round br (g\<lparr>rng := r'\<rparr>)))
                     (snd (settle_round br (g\<lparr>rng := r'\<rparr>)))))"

fun order_sum :: "(nat \<times> card list) list \<Rightarrow> nat list \<Rightarrow> py_error + int" where
  "order_sum hs [] = Inr 0"
| "order_sum hs (p # ps) =
     (case map_of hs p of
        None \<Rightarrow> Inl KeyError
      | Some h \<Rightarrow>
          (case order_sum hs ps of
             Inl e \<Rightarrow> Inl e
           | Inr s \<Rightarrow> Inr (sum_list (map card_order h) + s)))"

text \<open>
  \<open>resolve_ordago\<close> reveals the hands (reading the hand of every player) and
  compares the two teams' sums of card orders. It returns the winning team, if any.
\<close>

definition resolve_ordago :: "game \<Rightarrow> nat option result" where
  "resolve_ordago g =
     (let g1 = g\<lparr>hands_revealed := Some True\<rparr>
      in if \<exists>p \<in> set [0..<num_players g]. map_of (hands g) p = None then Raised KeyError g1
         else case teams g1 of
                Inl e \<Rightarrow> Raised e g1
              | Inr (team0, team1) \<Rightarrow>
                 (case order_sum (hands g1) team0 of
                    Inl e \<Rightarrow> Raised e g1
                  | Inr score0 \<Rightarrow>
                     (case order_sum (hands g1) team1 of
                        Inl e \<Rightarrow> Raised e g1
                      | Inr score1 \<Rightarrow>
                          Done (if score0 > score1 then Some 0
                                else if score1 > score0 then Some 1 else None) g1)))"

definition evaluator :: "category \<Rightarrow> card list \<Rightarrow> int list" where
  "evaluator play =
     (case play of Grande \<Rightarrow> evaluate_grande | Chica \<Rightarrow> evaluate_chica
                 | Pares \<Rightarrow> evaluate_pairs | Juego \<Rightarrow> evaluate_juego)"

fun evaluations :: "(card list \<Rightarrow> int list) \<Rightarrow> (nat \<times> card list) list \<Rightarrow> nat list
                     \<Rightarrow> py_error + (nat \<times> int list) list" where
  "evaluations ev hs [] = Inr []"
| "evaluations ev hs (p # ps) =
     (case map_of hs p of
        None \<Rightarrow> Inl KeyError
      | Some h \<Rightarrow>
          (case evaluations ev hs ps of Inl e \<Rightarrow> Inl e | Inr rest \<Rightarrow> Inr ((p, ev h) # rest)))"

text \<open>\<open>max\<close> for grande, pares and juego, \<open>min\<close> for chica; either raises on no player.\<close>

definition best_player :: "category \<Rightarrow> (nat \<times> int list) list \<Rightarrow> py_error + nat" where
  "best_player play evs =
     (case evs of
        [] \<Rightarrow> Inl ValueError
      | v # vs \<Rightarrow>
          Inr (if play = Chica then first_best (\<lambda>new old. tuple_lt new old) v vs
               else first_best (\<lambda>new old. tuple_lt old new) v vs))"

fun score_categories :: "category list \<Rightarrow> game \<Rightarrow> nat list \<Rightarrow> nat list \<Rightarrow> int \<times> int
                           \<Rightarrow> py_error + int \<times> int" where
  "score_categories [] g team0 team1 tot = Inr tot"
| "score_categories (play # rest) g team0 team1 tot =
     (case evaluations (evaluator play) (hands g) [0..<num_players g] of
        Inl e \<Rightarrow> Inl e
      | Inr evs \<Rightarrow>
         (case best_player play evs of
            Inl e \<Rightarrow> Inl e
          | Inr best \<Rightarrow>
             (let betting_winner = (case map_of (play_results g) play of
                                      None \<Rightarrow> None | Some res \<Rightarrow> fst res);
                  final_winner = (case betting_winner of Some w \<Rightarrow> w | None \<Rightarrow> best)
              in score_categories rest g team0 team1
                   (if final_winner \<in> set team0 then (fst tot + 1, snd tot)
                    else if final_winner \<in> set team1 then (fst tot, snd tot + 1)
                    else tot))))"

definition add_round_scores :: "int \<times> int \<Rightarrow> game \<Rightarrow> game" where
  "add_round_scores rs g =
     g\<lparr>scores := (fst (scores g) + fst rs, snd (scores g) + snd rs), current_phase := Deal\<rparr>"

definition score_round :: "game \<Rightarrow> unit result" where
  "score_round g =
     (case teams g of
        Inl e \<Rightarrow> Raised e g
      | Inr (team0, team1) \<Rightarrow>
          if ordago_active g
          then (case resolve_ordago g of
                  Raised e g1 \<Rightarrow> Raised e g1
                | Done winning_team g1 \<Rightarrow>
                    Done () (add_round_scores
                      (if winning_team = Some 0 then (target_score g1, 0)
                       else if winning_team = Some 1 then (0, target_score g1)
                       else (0, 0)) g1))
          else (case score_categories (play_categories g) g team0 team1 (0, 0) of
                  Inl e \<Rightarrow> Raised e g
                | Inr rs \<Rightarrow> Done () (add_round_scores rs g)))"

text \<open>
  The loop of \<open>start_play_phase\<close> over the categories. \<open>after_round\<close> is the rest of the
  loop body once the betting round of \<open>play\<close> has returned \<open>res\<close>: the result is stored,
  and the loop breaks when the all-in flag is up, else goes on with the other categories.
\<close>

fun play_loop :: "category list \<Rightarrow> game \<Rightarrow> unit result option"
  and after_round :: "category \<Rightarrow> category list \<Rightarrow> nat option \<times> bet option \<Rightarrow> game
                       \<Rightarrow> unit result option" where
  "play_loop [] g = Some (Done () g)"
| "play_loop (play # rest) g =
     (case run_detailed_betting_round play g of
        None \<Rightarrow> None
      | Some (Raised e g1) \<Rightarrow> Some (Raised e g1)
      | Some (Done res g1) \<Rightarrow> after_round play rest res g1)"
| "after_round play rest res g1 =
     (let g2 = g1\<lparr>play_results := AList.update play res (play_results g1)\<rparr>
      in if ordago_active g2 then Some (Done () g2) else play_loop rest g2)"

text \<open>The end of \<open>start_play_phase\<close>, once the loop is over.\<close>

definition finish_play_phase :: "game \<Rightarrow> unit result" where
  "finish_play_phase g = score_round (g\<lparr>current_phase := Scoring\<rparr>)"

definition start_play_phase :: "game \<Rightarrow> unit result option" where
  "start_play_phase g =
     (case play_loop [Grande, Chica, Pares, Juego]
             (g\<lparr>current_phase := Play, play_categories := [Grande, Chica, Pares, Juego],
                play_results := []\<rparr>) of
        None \<Rightarrow> None
      | Some (Raised e g1) \<Rightarrow> Some (Raised e g1)
      | Some (Done _ g1) \<Rightarrow> Some (finish_play_phase g1))"

definition is_terminal :: "game \<Rightarrow> bool" where
  "is_terminal g = (fst (scores g) \<ge> target_score g \<or> snd (scores g) \<ge> target_score g)"

definition finish_round :: "game \<Rightarrow> game" where
  "finish_round g = g\<lparr>current_phase := Deal\<rparr>"

text \<open>
  An action dictionary, reduced to the keys \<open>step\<close> reads; a missing key is \<open>None\<close>.
\<close>

record action_dict =
  act_type :: "int option"
  act_cards :: "int list option"
  act_signal :: "int option"

definition mask_indices :: "int list \<Rightarrow> nat list" where
  "mask_indices cs = map fst (filter (\<lambda>iv. snd iv = 1) (zip [0..<length cs] cs))"

definition signal_part ::
  "nat \<Rightarrow> action_dict \<Rightarrow> (nat \<times> int \<times> nat list) list \<Rightarrow> game
     \<Rightarrow> (nat \<times> int \<times> nat list) list result" where
  "signal_part player a info g =
     (case act_signal a of
        Some signal_value \<Rightarrow>
          if act_type a = Some 5
          then (case update_covert_signal player signal_value g of
                  Raised e g1 \<Rightarrow> Raised e g1
                | Done interceptors g1 \<Rightarrow>
                    Done (if interceptors \<noteq> []
                          then AList.update player (signal_value, interceptors) info
                          else info) g1)
          else Done info g
      | None \<Rightarrow> Done info g)"

definition discard_part :: "nat \<Rightarrow> action_dict \<Rightarrow> game \<Rightarrow> unit result" where
  "discard_part player a g =
     (case act_cards a of
        Some cs \<Rightarrow>
          if act_type a = Some 0 then perform_discard player (mask_indices cs) g
          else Done () g
      | None \<Rightarrow> Done () g)"

fun mus_actions ::
  "(nat \<times> action_dict) list \<Rightarrow> (nat \<times> int \<times> nat list) list \<Rightarrow> game
     \<Rightarrow> (nat \<times> int \<times> nat list) list result" where
  "mus_actions [] info g = Done info g"
| "mus_actions ((player, a) # rest) info g =
     (case signal_part player a info g of
        Raised e g1 \<Rightarrow> Raised e g1
      | Done info1 g1 \<Rightarrow>
          (case discard_part player a g1 of
             Raised e g2 \<Rightarrow> Raised e g2
           | Done _ g2 \<Rightarrow> mus_actions rest info1 g2))"

definition step ::
  "(nat \<times> action_dict) list \<Rightarrow> game \<Rightarrow> (nat \<times> int \<times> nat list) list result option" where
  "step actions g =
     (case current_phase g of
        Mus \<Rightarrow>
          (case mus_actions actions [] g of
             Raised e g1 \<Rightarrow> Some (Raised e g1)
           | Done info g1 \<Rightarrow>
               (case start_play_phase g1 of
                  None \<Rightarrow> None
                | Some (Raised e g2) \<Rightarrow> Some (Raised e g2)
                | Some (Done _ g2) \<Rightarrow> Some (Done info g2)))
      | Play \<Rightarrow>
          (case start_play_phase g of
             None \<Rightarrow> None
           | Some (Raised e g2) \<Rightarrow> Some (Raised e g2)
           | Some (Done _ g2) \<Rightarrow> Some (Done [] g2))
      | Scoring \<Rightarrow> Some (Done [] (finish_round g))
      | Deal \<Rightarrow> Some (Done [] g))"

section \<open>Sequences of operations on one game\<close>

text \<open>
  The public operations a caller can apply to one \<open>MusGame\<close> instance, and the state
  they leave behind (also when they raise). \<open>None\<close> would mean that an operation never
  returns.
\<close>

datatype operation =
    InitialDeal
  | PerformDiscard nat "nat list"
  | Step "(nat \<times> action_dict) list"
  | StartPlayPhase
  | ScoreRound

fun apply_op :: "operation \<Rightarrow> game \<Rightarrow> game option" where
  "apply_op InitialDeal g = Some (result_state (initial_deal g))"
| "apply_op (PerformDiscard player idxs) g = Some (result_state (perform_discard player idxs g))"
| "apply_op (Step actions) g = map_option result_state (step actions g)"
| "apply_op StartPlayPhase g = map_option result_state (start_play_phase g)"
| "apply_op ScoreRound g = Some (result_state (score_round g))"

fun run_ops :: "operation list \<Rightarrow> game \<Rightarrow> game option" where
  "run_ops [] g = Some g"
| "run_ops (x # xs) g = (case apply_op x g of None \<Rightarrow> None | Some g' \<Rightarrow> run_ops xs g')"

text \<open>The quantity of the card-conservation invariant.\<close>

definition hand_sum :: "(nat \<times> card list) list \<Rightarrow> nat" where
  "hand_sum hs = sum_list (map (\<lambda>ph. length (snd ph)) hs)"

definition card_total :: "game \<Rightarrow> nat" where
  "card_total g = length (deck g) + length (discard_pile g) + hand_sum (hands g)"

section \<open>Auxiliary notions for the proofs\<close>

text \<open>
  Invariants of a betting round: the keys of \<open>active\<close> are distinct keys of \<open>bets\<close>; no
  bet is recorded; no all-in is recorded.
\<close>

definition keys_ok :: "betting_round \<Rightarrow> bool" where
  "keys_ok br \<longleftrightarrow> fst ` set (active br) \<subseteq> fst ` set (bets br) \<and> distinct (map fst (active br))"

definition no_bets :: "betting_round \<Rightarrow> bool" where
  "no_bets br \<longleftrightarrow> (\<forall>pb \<in> set (bets br). snd pb = None)"

definition no_ordago :: "betting_round \<Rightarrow> bool" where
  "no_ordago br \<longleftrightarrow> (\<forall>q. (q, Some OrdagoBet) \<notin> set (bets br))"

text \<open>Every hand is empty; what an operation leaves untouched; scores that only grow.\<close>

definition all_empty :: "game \<Rightarrow> bool" where
  "all_empty g \<longleftrightarrow> (\<forall>ph \<in> set (hands g). snd ph = [])"

definition scores_kept :: "game \<Rightarrow> game \<Rightarrow> bool" where
  "scores_kept g g' \<longleftrightarrow> scores g' = scores g \<and> target_score g' = target_score g"

definition cards_kept :: "game \<Rightarrow> game \<Rightarrow> bool" where
  "cards_kept g g' \<longleftrightarrow> deck g' = deck g \<and> discard_pile g' = discard_pile g \<and> hands g' = hands g"

definition scores_grow :: "game \<Rightarrow> game \<Rightarrow> bool" where
  "scores_grow g g' \<longleftrightarrow>
     target_score g' = target_score g
     \<and> (0 \<le> target_score g \<longrightarrow> fst (scores g) \<le> fst (scores g') \<and> snd (scores g) \<le> snd (scores g'))"

text \<open>
  A four-player game in the Play phase with mano 0 (teams \<open>{0, 2}\<close> and \<open>{1, 3}\<close>), used
  as a concrete state; the hands of players 0, 1 and 2 sum to the orders 22, 18 and 19.
\<close>

definition fixture_game :: "(nat \<times> card list) list \<Rightarrow> bool \<Rightarrow> int \<times> int \<Rightarrow> game" where
  "fixture_game hs ordago sc =
     \<lparr> num_players = 4, target_score = 40, deck = [], hands = hs, discard_pile = [],
       current_phase = Play, scores = sc, mano = Some 0, turn_order = [0, 1, 2, 3],
       current_turn_index = 0, play_categories = [], play_results = [],
       ordago_active = ordago, ordago_player = None, covert_signals = [],
       intercepted_signals = [], signal_intercept_chance = 1 / 5,
       hands_revealed = Some False, rng = (\<lambda>i. i) \<rparr>"

definition fixture_hands :: "card list \<Rightarrow> (nat \<times> card list) list" where
  "fixture_hands h3 =
     [(0, [Card King Oros, Card King Copas, Card Ace Oros, Card Ace Copas]),
      (1, [Card Seven Oros, Card Six Oros, Card Five Oros, Card Four Oros]),
      (2, [Card Knight Oros, Card Jack Oros, Card Two Oros, Card Two Copas]),
      (3, h3)]"

section \<open>Properties of the deck\<close>

lemma length_Deck_init: "length Deck_init = 40"
  by (simp add: Deck_init_def RANKS_def SUITS_def)

lemma deal_conserves: "length (fst (deal n cards)) + length (snd (deal n cards)) = length cards"
  by (simp add: deal_def)

text \<open>
  Claim C8, as the code has it. \<open>deal\<close> slices and never fails: asked for more cards than
  the deck holds it returns all of them (fewer than asked) and leaves the deck empty. For
  a count between 0 and the deck size it returns exactly the first \<open>n\<close> cards in order and
  keeps the rest.
\<close>

theorem deal_slices:
  "(int (length cards) < n \<longrightarrow> deal n cards = (cards, []))
   \<and> (0 \<le> n \<and> n \<le> int (length cards) \<longrightarrow>
        deal n cards = (take (nat n) cards, drop (nat n) cards)
        \<and> length (fst (deal n cards)) = nat n
        \<and> length (snd (deal n cards)) = length cards - nat n)"
  by (auto simp: deal_def slice_point_def)

text \<open>
  Witness for C8: five cards asked of a deck of three, and two cards asked of it.
\<close>

theorem deal_slices_witness:
  "deal 5 [Card King Oros, Card Ace Copas, Card Six Bastos]
     = ([Card King Oros, Card Ace Copas, Card Six Bastos], [])
   \<and> deal 2 [Card King Oros, Card Ace Copas, Card Six Bastos]
     = ([Card King Oros, Card Ace Copas], [Card Six Bastos])"
  using deal_slices[of "[Card King Oros, Card Ace Copas, Card Six Bastos]" 5]
        deal_slices[of "[Card King Oros, Card Ace Copas, Card Six Bastos]" 2]
  by simp

text \<open>
  Counterexample to C8 as stated. \<open>deal(5)\<close> on a deck of three cards returns three cards.
\<close>

theorem deal_insufficient_counterexample:
  "fst (deal 5 [Card King Oros, Card Ace Copas, Card Six Bastos])
     = [Card King Oros, Card Ace Copas, Card Six Bastos]
   \<and> int (length (fst (deal 5 [Card King Oros, Card Ace Copas, Card Six Bastos]))) < 5"
  by (simp add: deal_def slice_point_def)

section \<open>Properties of the hand evaluators\<close>

lemma juego_at_index:
  assumes "k < 8" and "hand_total h = [31, 32, 40, 37, 36, 35, 34, 33] ! k"
  shows "evaluate_juego h = [1, 8 - int k]"
proof -
  from assms(1) consider "k = 0" | "k = 1" | "k = 2" | "k = 3" | "k = 4" | "k = 5" | "k = 6" | "k = 7"
    by linarith
  then show ?thesis
    using assms(2) by cases (simp_all add: evaluate_juego_def juego_ranking_def)
qed

text \<open>
  Claim C6. Compared as tuples, the results of \<open>evaluate_juego\<close> rank the totals 31, 32, 40,
  37, 36, 35, 34, 33 strictly in that order (an earlier total beats a later one); a hand
  totalling 31 or more beats every hand totalling less; and two hands below 31 compare as
  their totals do. This holds for hands of any size, four cards included.
\<close>

theorem juego_order:
  "(\<forall>i j. i < j \<and> j < 8
         \<and> hand_total h1 = [31, 32, 40, 37, 36, 35, 34, 33] ! i
         \<and> hand_total h2 = [31, 32, 40, 37, 36, 35, 34, 33] ! j
        \<longrightarrow> tuple_lt (evaluate_juego h2) (evaluate_juego h1))
   \<and> (hand_total h1 \<ge> 31 \<and> hand_total h2 < 31 \<longrightarrow> tuple_lt (evaluate_juego h2) (evaluate_juego h1))
   \<and> (hand_total h1 < 31 \<and> hand_total h2 < 31 \<longrightarrow>
        (tuple_lt (evaluate_juego h2) (evaluate_juego h1) \<longleftrightarrow> hand_total h2 < hand_total h1))"
proof (intro conjI allI impI)
  fix i j :: nat
  assume a: "i < j \<and> j < 8
         \<and> hand_total h1 = [31, 32, 40, 37, 36, 35, 34, 33] ! i
         \<and> hand_total h2 = [31, 32, 40, 37, 36, 35, 34, 33] ! j"
  then have "evaluate_juego h1 = [1, 8 - int i]" "evaluate_juego h2 = [1, 8 - int j]"
    using juego_at_index[of i h1] juego_at_index[of j h2] by simp_all
  then show "tuple_lt (evaluate_juego h2) (evaluate_juego h1)"
    using a by simp
next
  assume "hand_total h1 \<ge> 31 \<and> hand_total h2 < 31"
  then show "tuple_lt (evaluate_juego h2) (evaluate_juego h1)"
    by (simp add: evaluate_juego_def)
next
  assume "hand_total h1 < 31 \<and> hand_total h2 < 31"
  then show "tuple_lt (evaluate_juego h2) (evaluate_juego h1) \<longleftrightarrow> hand_total h2 < hand_total h1"
    by (simp add: evaluate_juego_def)
qed

text \<open>
  Witness for C6, on four-card hands: 31 (three Kings and an Ace) beats 40 (four Kings);
  40 beats 33 (King, Jack, Seven, Six); 31 beats 30; and 30 beats 28.
\<close>

theorem juego_order_witness:
  "tuple_lt (evaluate_juego [Card King Oros, Card King Copas, Card King Bastos, Card King Espadas])
            (evaluate_juego [Card King Oros, Card King Copas, Card King Bastos, Card Ace Oros])
   \<and> tuple_lt (evaluate_juego [Card King Oros, Card Jack Copas, Card Seven Bastos, Card Six Oros])
              (evaluate_juego [Card King Oros, Card King Copas, Card King Bastos, Card King Espadas])
   \<and> tuple_lt (evaluate_juego [Card King Oros, Card King Copas, Card Five Bastos, Card Five Oros])
              (evaluate_juego [Card King Oros, Card King Copas, Card King Bastos, Card Ace Oros])
   \<and> tuple_lt (evaluate_juego [Card King Oros, Card King Copas, Card Four Bastos, Card Four Oros])
              (evaluate_juego [Card King Oros, Card King Copas, Card Five Bastos, Card Five Oros])"
proof -
  let ?h40 = "[Card King Oros, Card King Copas, Card King Bastos, Card King Espadas]"
  let ?h31 = "[Card King Oros, Card King Copas, Card King Bastos, Card Ace Oros]"
  let ?h33 = "[Card King Oros, Card Jack Copas, Card Seven Bastos, Card Six Oros]"
  let ?h30 = "[Card King Oros, Card King Copas, Card Five Bastos, Card Five Oros]"
  let ?h28 = "[Card King Oros, Card King Copas, Card Four Bastos, Card Four Oros]"
  have 1: "tuple_lt (evaluate_juego ?h40) (evaluate_juego ?h31)"
    using juego_order[of ?h31 ?h40, THEN conjunct1, rule_format, of 0 2]
    by (simp add: hand_total_def card_value_def)
  have 2: "tuple_lt (evaluate_juego ?h33) (evaluate_juego ?h40)"
    using juego_order[of ?h40 ?h33, THEN conjunct1, rule_format, of 2 7]
    by (simp add: hand_total_def card_value_def)
  have 3: "tuple_lt (evaluate_juego ?h30) (evaluate_juego ?h31)"
    using juego_order[of ?h31 ?h30, THEN conjunct2, THEN conjunct1]
    by (simp add: hand_total_def card_value_def)
  have 4: "tuple_lt (evaluate_juego ?h28) (evaluate_juego ?h30)"
    using juego_order[of ?h30 ?h28, THEN conjunct2, THEN conjunct2]
    by (simp add: hand_total_def card_value_def)
  from 1 2 3 4 show ?thesis by blast
qed

lemmas cnt = Counter_def counter_add_def
lemmas epd = evaluate_pairs_def with_count_def

lemma ep_quads: "evaluate_pairs [Card r s1, Card r s2, Card r s3, Card r s4] = [3, ORDER r]"
  by (simp add: epd cnt)

lemma ep_triples:
  assumes "v \<noteq> r"
  shows "evaluate_pairs [Card v s1, Card r s2, Card r s3, Card r s4] = [2, ORDER r]"
    and "evaluate_pairs [Card r s1, Card v s2, Card r s3, Card r s4] = [2, ORDER r]"
    and "evaluate_pairs [Card r s1, Card r s2, Card v s3, Card r s4] = [2, ORDER r]"
    and "evaluate_pairs [Card r s1, Card r s2, Card r s3, Card v s4] = [2, ORDER r]"
  using assms by (simp_all add: epd cnt)

lemma ep_duples:
  assumes "p \<noteq> q"
  shows "evaluate_pairs [Card p s1, Card p s2, Card q s3, Card q s4] = [3, max (ORDER p) (ORDER q), min (ORDER p) (ORDER q)]"
    and "evaluate_pairs [Card p s1, Card q s2, Card p s3, Card q s4] = [3, max (ORDER p) (ORDER q), min (ORDER p) (ORDER q)]"
    and "evaluate_pairs [Card p s1, Card q s2, Card q s3, Card p s4] = [3, max (ORDER p) (ORDER q), min (ORDER p) (ORDER q)]"
  using assms by (simp_all add: epd cnt max_def min_def)

lemma ep_single:
  assumes "u \<noteq> r" "v \<noteq> r" "u \<noteq> v"
  shows "evaluate_pairs [Card r s1, Card r s2, Card u s3, Card v s4] = [1, ORDER r]"
    and "evaluate_pairs [Card r s1, Card u s2, Card r s3, Card v s4] = [1, ORDER r]"
    and "evaluate_pairs [Card r s1, Card u s2, Card v s3, Card r s4] = [1, ORDER r]"
    and "evaluate_pairs [Card u s1, Card r s2, Card r s3, Card v s4] = [1, ORDER r]"
    and "evaluate_pairs [Card u s1, Card r s2, Card v s3, Card r s4] = [1, ORDER r]"
    and "evaluate_pairs [Card u s1, Card v s2, Card r s3, Card r s4] = [1, ORDER r]"
  using assms by (simp_all add: epd cnt)

lemma ep_none:
  assumes "distinct [w, x, y, z]"
  shows "evaluate_pairs [Card w s1, Card x s2, Card y s3, Card z s4] = [0]"
  using assms by (auto simp add: epd cnt)

lemma count4: "count_list [w, x, y, z] r = 4 \<Longrightarrow> w = r \<and> x = r \<and> y = r \<and> z = r"
  by (simp split: if_splits)

lemma count3: "count_list [w, x, y, z] r = 3 \<Longrightarrow>
   (w \<noteq> r \<and> x = r \<and> y = r \<and> z = r) \<or> (w = r \<and> x \<noteq> r \<and> y = r \<and> z = r) \<or>
   (w = r \<and> x = r \<and> y \<noteq> r \<and> z = r) \<or> (w = r \<and> x = r \<and> y = r \<and> z \<noteq> r)"
  by (simp split: if_splits)

lemma count2: "count_list [w, x, y, z] r = 2 \<Longrightarrow>
   (w = r \<and> x = r \<and> y \<noteq> r \<and> z \<noteq> r) \<or> (w = r \<and> x \<noteq> r \<and> y = r \<and> z \<noteq> r) \<or>
   (w = r \<and> x \<noteq> r \<and> y \<noteq> r \<and> z = r) \<or> (w \<noteq> r \<and> x = r \<and> y = r \<and> z \<noteq> r) \<or>
   (w \<noteq> r \<and> x = r \<and> y \<noteq> r \<and> z = r) \<or> (w \<noteq> r \<and> x \<noteq> r \<and> y = r \<and> z = r)"
  by (simp split: if_splits)

lemma duples_ranks:
  assumes "r1 \<noteq> r2" "count_list [w, x, y, z] r1 = 2" "count_list [w, x, y, z] r2 = 2"
  shows "evaluate_pairs [Card w s1, Card x s2, Card y s3, Card z s4] =
           [3, max (ORDER r1) (ORDER r2), min (ORDER r1) (ORDER r2)]"
proof -
  from count2[OF assms(2)] consider
      "w = r1 \<and> x = r1 \<and> y \<noteq> r1 \<and> z \<noteq> r1" | "w = r1 \<and> x \<noteq> r1 \<and> y = r1 \<and> z \<noteq> r1"
    | "w = r1 \<and> x \<noteq> r1 \<and> y \<noteq> r1 \<and> z = r1" | "w \<noteq> r1 \<and> x = r1 \<and> y = r1 \<and> z \<noteq> r1"
    | "w \<noteq> r1 \<and> x = r1 \<and> y \<noteq> r1 \<and> z = r1" | "w \<noteq> r1 \<and> x \<noteq> r1 \<and> y = r1 \<and> z = r1"
    by blast
  then show ?thesis
  proof cases
    case 1
    with assms(1,3) have "y = r2 \<and> z = r2" by (simp split: if_splits)
    with 1 assms(1) show ?thesis by (simp add: ep_duples(1))
  next
    case 2
    with assms(1,3) have "x = r2 \<and> z = r2" by (simp split: if_splits)
    with 2 assms(1) show ?thesis by (simp add: ep_duples(2))
  next
    case 3
    with assms(1,3) have "x = r2 \<and> y = r2" by (simp split: if_splits)
    with 3 assms(1) show ?thesis by (simp add: ep_duples(3))
  next
    case 4
    with assms(1,3) have "w = r2 \<and> z = r2" by (simp split: if_splits)
    with 4 assms(1) show ?thesis
      using ep_duples(3)[of r2 r1 s1 s2 s3 s4] by (simp add: max.commute min.commute)
  next
    case 5
    with assms(1,3) have "w = r2 \<and> y = r2" by (simp split: if_splits)
    with 5 assms(1) show ?thesis
      using ep_duples(2)[of r2 r1 s1 s2 s3 s4] by (simp add: max.commute min.commute)
  next
    case 6
    with assms(1,3) have "w = r2 \<and> x = r2" by (simp split: if_splits)
    with 6 assms(1) show ?thesis
      using ep_duples(1)[of r2 r1 s1 s2 s3 s4] by (simp add: max.commute min.commute)
  qed
qed

lemma single_ranks:
  assumes "count_list [w, x, y, z] r = 2"
      and "\<forall>r'. r' \<noteq> r \<longrightarrow> count_list [w, x, y, z] r' \<le> 1"
  shows "evaluate_pairs [Card w s1, Card x s2, Card y s3, Card z s4] = [1, ORDER r]"
proof -
  from count2[OF assms(1)] consider
      "w = r \<and> x = r \<and> y \<noteq> r \<and> z \<noteq> r" | "w = r \<and> x \<noteq> r \<and> y = r \<and> z \<noteq> r"
    | "w = r \<and> x \<noteq> r \<and> y \<noteq> r \<and> z = r" | "w \<noteq> r \<and> x = r \<and> y = r \<and> z \<noteq> r"
    | "w \<noteq> r \<and> x = r \<and> y \<noteq> r \<and> z = r" | "w \<noteq> r \<and> x \<noteq> r \<and> y = r \<and> z = r"
    by blast
  then show ?thesis
  proof cases
    case 1
    with assms(2)[rule_format, of y] have "y \<noteq> z" by (auto split: if_splits)
    with 1 show ?thesis by (simp add: ep_single(1))
  next
    case 2
    with assms(2)[rule_format, of x] have "x \<noteq> z" by (auto split: if_splits)
    with 2 show ?thesis by (simp add: ep_single(2))
  next
    case 3
    with assms(2)[rule_format, of x] have "x \<noteq> y" by (auto split: if_splits)
    with 3 show ?thesis by (simp add: ep_single(3))
  next
    case 4
    with assms(2)[rule_format, of w] have "w \<noteq> z" by (auto split: if_splits)
    with 4 show ?thesis by (simp add: ep_single(4))
  next
    case 5
    with assms(2)[rule_format, of w] have "w \<noteq> y" by (auto split: if_splits)
    with 5 show ?thesis by (simp add: ep_single(5))
  next
    case 6
    with assms(2)[rule_format, of w] have "w \<noteq> x" by (auto split: if_splits)
    with 6 show ?thesis by (simp add: ep_single(6))
  qed
qed

lemma triples_ranks:
  assumes "count_list [w, x, y, z] r = 3"
  shows "evaluate_pairs [Card w s1, Card x s2, Card y s3, Card z s4] = [2, ORDER r]"
  using count3[OF assms] by (elim disjE conjE) (simp_all add: ep_triples)

lemma quads_ranks:
  assumes "count_list [w, x, y, z] r = 4"
  shows "evaluate_pairs [Card w s1, Card x s2, Card y s3, Card z s4] = [3, ORDER r]"
  using count4[OF assms] by (simp add: ep_quads)

text \<open>
  What \<open>evaluate_pairs\<close> returns on a hand of four cards, by the multiplicities of the
  ranks. Four cards of one rank give category 3 followed by one value, that rank's order;
  two different ranks held twice each give category 3 followed by the two orders, larger
  first; a rank held three times gives category 2 and its order; a single rank held
  twice, every other rank at most once, gives category 1 and its order; four different
  ranks give category 0. The hand King, King, Jack, Jack evaluates to (3, 9, 7), the hand
  King, King, Seven, Four to (1, 9), and the first is strictly greater as a tuple.
\<close>

lemma evaluate_pairs_cases:
  fixes a b c d :: card
  shows "(\<forall>r. count_list (map card_rank [a, b, c, d]) r = 4 \<longrightarrow>
            evaluate_pairs [a, b, c, d] = [3, ORDER r])
       \<and> (\<forall>r1 r2. r1 \<noteq> r2 \<and> count_list (map card_rank [a, b, c, d]) r1 = 2
                 \<and> count_list (map card_rank [a, b, c, d]) r2 = 2 \<longrightarrow>
            evaluate_pairs [a, b, c, d] = [3, max (ORDER r1) (ORDER r2), min (ORDER r1) (ORDER r2)])
       \<and> (\<forall>r. count_list (map card_rank [a, b, c, d]) r = 3 \<longrightarrow>
            evaluate_pairs [a, b, c, d] = [2, ORDER r])
       \<and> (\<forall>r. count_list (map card_rank [a, b, c, d]) r = 2
               \<and> (\<forall>r'. r' \<noteq> r \<longrightarrow> count_list (map card_rank [a, b, c, d]) r' \<le> 1) \<longrightarrow>
            evaluate_pairs [a, b, c, d] = [1, ORDER r])
       \<and> (distinct (map card_rank [a, b, c, d]) \<longrightarrow> evaluate_pairs [a, b, c, d] = [0])
       \<and> evaluate_pairs [Card King Oros, Card King Copas, Card Jack Oros, Card Jack Copas] = [3, 9, 7]
       \<and> evaluate_pairs [Card King Oros, Card King Copas, Card Seven Oros, Card Four Oros] = [1, 9]
       \<and> tuple_lt (evaluate_pairs [Card King Oros, Card King Copas, Card Seven Oros, Card Four Oros])
                   (evaluate_pairs [Card King Oros, Card King Copas, Card Jack Oros, Card Jack Copas])"
proof -
  obtain w s1 x s2 y s3 z s4
    where h: "a = Card w s1" "b = Card x s2" "c = Card y s3" "d = Card z s4"
    by (cases a, cases b, cases c, cases d) blast
  have kkjj: "evaluate_pairs [Card King Oros, Card King Copas, Card Jack Oros, Card Jack Copas] = [3, 9, 7]"
    using ep_duples(1)[of King Jack] by simp
  have kk74: "evaluate_pairs [Card King Oros, Card King Copas, Card Seven Oros, Card Four Oros] = [1, 9]"
    using ep_single(1)[of Seven King Four] by simp
  show ?thesis
    unfolding kkjj kk74 h
    by (simp add: quads_ranks triples_ranks duples_ranks single_ranks ep_none del: count_list.simps distinct.simps)
qed

text \<open>
  One hand of each kind. King and Three share an order but are different ranks, so the
  fourth hand holds a single pair of Fives.
\<close>

lemma evaluate_pairs_cases_examples:
  "evaluate_pairs [Card Ace Oros, Card Ace Copas, Card Ace Espadas, Card Ace Bastos] = [3, 2]
   \<and> evaluate_pairs [Card Two Oros, Card King Copas, Card Two Espadas, Card King Bastos] = [3, 9, 2]
   \<and> evaluate_pairs [Card Six Oros, Card Six Copas, Card Ace Espadas, Card Six Bastos] = [2, 5]
   \<and> evaluate_pairs [Card King Oros, Card Three Copas, Card Five Espadas, Card Five Bastos] = [1, 4]
   \<and> evaluate_pairs [Card King Oros, Card Three Copas, Card Knight Espadas, Card Jack Bastos] = [0]"
proof -
  have 1: "evaluate_pairs [Card Ace Oros, Card Ace Copas, Card Ace Espadas, Card Ace Bastos] = [3, 2]"
    using evaluate_pairs_cases[of "Card Ace Oros" "Card Ace Copas" "Card Ace Espadas" "Card Ace Bastos"]
    by simp
  have 2: "evaluate_pairs [Card Two Oros, Card King Copas, Card Two Espadas, Card King Bastos] = [3, 9, 2]"
    using evaluate_pairs_cases[of "Card Two Oros" "Card King Copas" "Card Two Espadas" "Card King Bastos",
       THEN conjunct2, THEN conjunct1, rule_format, of King Two]
    by simp
  have 3: "evaluate_pairs [Card Six Oros, Card Six Copas, Card Ace Espadas, Card Six Bastos] = [2, 5]"
    using evaluate_pairs_cases[of "Card Six Oros" "Card Six Copas" "Card Ace Espadas" "Card Six Bastos",
       THEN conjunct2, THEN conjunct2, THEN conjunct1, rule_format, of Six]
    by simp
  have 4: "evaluate_pairs [Card King Oros, Card Three Copas, Card Five Espadas, Card Five Bastos] = [1, 4]"
    using evaluate_pairs_cases[of "Card King Oros" "Card Three Copas" "Card Five Espadas" "Card Five Bastos",
       THEN conjunct2, THEN conjunct2, THEN conjunct2, THEN conjunct1, rule_format, of Five]
    by simp
  have 5: "evaluate_pairs [Card King Oros, Card Three Copas, Card Knight Espadas, Card Jack Bastos] = [0]"
    using evaluate_pairs_cases[of "Card King Oros" "Card Three Copas" "Card Knight Espadas" "Card Jack Bastos"]
    by simp
  from 1 2 3 4 5 show ?thesis by blast
qed

section \<open>Properties of the betting round\<close>

lemma valid_bets_mem: "(q, Some (Amount m)) \<in> set bs \<longleftrightarrow> (q, m) \<in> set (valid_bets bs)"
  by (induction bs rule: valid_bets.induct) auto

lemma valid_bets_append: "valid_bets (xs @ ys) = valid_bets xs @ valid_bets ys"
  by (induction xs rule: valid_bets.induct) auto

lemma valid_bets_Nil: "valid_bets bs = [] \<longleftrightarrow> (\<forall>q m. (q, Some (Amount m)) \<notin> set bs)"
  by (induction bs rule: valid_bets.induct) auto

lemma valid_bets_split:
  "valid_bets bs = pre' @ (k, n) # post' \<Longrightarrow>
   \<exists>pre post. bs = pre @ (k, Some (Amount n)) # post \<and> valid_bets pre = pre' \<and> valid_bets post = post'"
proof (induction bs arbitrary: pre' rule: valid_bets.induct)
  case 1
  then show ?case by simp
next
  case (2 p m rest)
  show ?case
  proof (cases pre')
    case Nil
    with 2 have "(p, Some (Amount m)) # rest = [] @ (k, Some (Amount n)) # rest \<and> valid_bets [] = pre'
        \<and> valid_bets rest = post'" by simp
    then show ?thesis by blast
  next
    case (Cons a pre'')
    with 2 have "valid_bets rest = pre'' @ (k, n) # post'" and a: "a = (p, m)" by simp_all
    from 2(1)[OF this(1)] obtain pre post where
      "rest = pre @ (k, Some (Amount n)) # post" "valid_bets pre = pre''" "valid_bets post = post'"
      by blast
    then have "(p, Some (Amount m)) # rest = ((p, Some (Amount m)) # pre) @ (k, Some (Amount n)) # post
       \<and> valid_bets ((p, Some (Amount m)) # pre) = pre' \<and> valid_bets post = post'"
      using Cons a by simp
    then show ?thesis by blast
  qed
next
  case (3 p rest)
  then have "valid_bets rest = pre' @ (k, n) # post'" by simp
  from 3(1)[OF this] obtain pre post where
      "rest = pre @ (k, Some (Amount n)) # post" "valid_bets pre = pre'" "valid_bets post = post'"
      by blast
  then have "(p, Some OrdagoBet) # rest = ((p, Some OrdagoBet) # pre) @ (k, Some (Amount n)) # post
       \<and> valid_bets ((p, Some OrdagoBet) # pre) = pre' \<and> valid_bets post = post'"
    by simp
  then show ?case by blast
next
  case (4 p rest)
  then have "valid_bets rest = pre' @ (k, n) # post'" by simp
  from 4(1)[OF this] obtain pre post where
      "rest = pre @ (k, Some (Amount n)) # post" "valid_bets pre = pre'" "valid_bets post = post'"
      by blast
  then have "(p, None) # rest = ((p, None) # pre) @ (k, Some (Amount n)) # post
       \<and> valid_bets ((p, None) # pre) = pre' \<and> valid_bets post = post'"
    by simp
  then show ?case by blast
qed

lemma first_best_int:
  fixes v :: "'k \<times> int"
  shows "\<exists>pre post n. v # vs = pre @ (first_best (\<lambda>new old. new > old) v vs, n) # post
           \<and> (\<forall>x \<in> set pre. snd x < n) \<and> (\<forall>x \<in> set post. snd x \<le> n) \<and> snd v \<le> n"
proof (induction vs arbitrary: v)
  case Nil
  obtain k m where v: "v = (k, m)" by (cases v)
  have "v # [] = [] @ (first_best (\<lambda>new old. new > old) v [], m) # []" using v by simp
  then show ?case using v by fastforce
next
  case (Cons a vs)
  obtain k m where v: "v = (k, m)" by (cases v)
  obtain k' m' where a: "a = (k', m')" by (cases a)
  show ?case
  proof (cases "m' > m")
    case True
    from Cons[of a] obtain pre post n where
      d: "a # vs = pre @ (first_best (\<lambda>new old. new > old) a vs, n) # post"
        "\<forall>x \<in> set pre. snd x < n" "\<forall>x \<in> set post. snd x \<le> n" "snd a \<le> n" by blast
    have fb: "first_best (\<lambda>new old. new > old) v (a # vs) = first_best (\<lambda>new old. new > old) a vs"
      using True v a by simp
    have "v # a # vs = (v # pre) @ (first_best (\<lambda>new old. new > old) v (a # vs), n) # post"
      using d(1) fb by simp
    moreover have "\<forall>x \<in> set (v # pre). snd x < n" using d(2,4) True v a by auto
    moreover have "snd v \<le> n" using d(4) True v a by auto
    ultimately show ?thesis using d(3) by blast
  next
    case False
    from Cons[of v] obtain pre post n where
      d: "v # vs = pre @ (first_best (\<lambda>new old. new > old) v vs, n) # post"
        "\<forall>x \<in> set pre. snd x < n" "\<forall>x \<in> set post. snd x \<le> n" "snd v \<le> n" by blast
    have fb: "first_best (\<lambda>new old. new > old) v (a # vs) = first_best (\<lambda>new old. new > old) v vs"
      using False v a by simp
    show ?thesis
    proof (cases pre)
      case Nil
      with d(1) have veq: "v = (first_best (\<lambda>new old. new > old) v vs, n)" and "post = vs"
        by (metis append_Nil list.inject)+
      from veq have "snd v = n" by (metis snd_conv)
      from veq fb have "v # a # vs = [] @ (first_best (\<lambda>new old. new > old) v (a # vs), n) # a # vs"
        by simp
      moreover have "\<forall>x \<in> set (a # vs). snd x \<le> n"
        using d(3) \<open>post = vs\<close> \<open>snd v = n\<close> False v a by auto
      ultimately show ?thesis using \<open>snd v = n\<close> by (metis empty_iff empty_set order_refl)
    next
      case (Cons b pre')
      with d(1) have b: "b = v" and vs: "vs = pre' @ (first_best (\<lambda>new old. new > old) v vs, n) # post"
        by (metis append_Cons list.inject)+
      have "v # a # vs = (v # a # pre') @ (first_best (\<lambda>new old. new > old) v (a # vs), n) # post"
        using vs fb by simp
      moreover have "\<forall>x \<in> set (v # a # pre'). snd x < n"
        using d(2) Cons b False v a by auto
      ultimately show ?thesis using d(3,4) by blast
    qed
  qed
qed


lemma find_ordago_None:
  "find (\<lambda>pb. snd pb = Some OrdagoBet) bs = None \<longleftrightarrow> (\<forall>q. (q, Some OrdagoBet) \<notin> set bs)"
  by (induction bs) auto

text \<open>
  Claim C1, as the code has it. When no bet at all is recorded \<open>get_winner\<close> returns
  \<open>(None, None)\<close>: there is no betting winner, whoever is still active. A round with at
  most one active player is complete. When no all-in is recorded and some bet is, the
  winner is the first player, in dictionary order, holding the highest recorded bet among
  all players with a recorded bet (whether still active or not), and the second component
  is \<open>current_bet\<close>.
\<close>

theorem get_winner_by_design:
  "((\<forall>pb \<in> set (bets br). snd pb = None) \<longrightarrow> get_winner br = (None, None))
   \<and> (length (active_players br) \<le> 1 \<longrightarrow> is_round_complete br = Inr True)
   \<and> ((\<forall>q. (q, Some OrdagoBet) \<notin> set (bets br)) \<and> (\<exists>q m. (q, Some (Amount m)) \<in> set (bets br)) \<longrightarrow>
        (\<exists>w n pre post.
            get_winner br = (Some w, Some (Amount (current_bet br)))
          \<and> bets br = pre @ (w, Some (Amount n)) # post
          \<and> (\<forall>q m. (q, Some (Amount m)) \<in> set pre \<longrightarrow> m < n)
          \<and> (\<forall>q m. (q, Some (Amount m)) \<in> set post \<longrightarrow> m \<le> n)))"
proof (intro conjI impI)
  assume a: "\<forall>pb \<in> set (bets br). snd pb = None"
  then have "\<forall>q. (q, Some OrdagoBet) \<notin> set (bets br)" by fastforce
  then have f: "find (\<lambda>pb. snd pb = Some OrdagoBet) (bets br) = None"
    by (simp add: find_ordago_None)
  from a have "\<forall>q m. (q, Some (Amount m)) \<notin> set (bets br)" by fastforce
  then have "valid_bets (bets br) = []" by (simp add: valid_bets_Nil)
  with f show "get_winner br = (None, None)" by (simp add: get_winner_def)
next
  assume "length (active_players br) \<le> 1"
  then show "is_round_complete br = Inr True" by (simp add: is_round_complete_def)
next
  assume a: "(\<forall>q. (q, Some OrdagoBet) \<notin> set (bets br)) \<and> (\<exists>q m. (q, Some (Amount m)) \<in> set (bets br))"
  then have f: "find (\<lambda>pb. snd pb = Some OrdagoBet) (bets br) = None"
    by (simp add: find_ordago_None)
  from a have "valid_bets (bets br) \<noteq> []" by (simp add: valid_bets_Nil)
  then obtain v vs where vb: "valid_bets (bets br) = v # vs" by (cases "valid_bets (bets br)") auto
  define w where "w = first_best (\<lambda>new old. new > old) v vs"
  from first_best_int[of v vs] obtain pre' post' n where
    d: "v # vs = pre' @ (w, n) # post'" "\<forall>x \<in> set pre'. snd x < n" "\<forall>x \<in> set post'. snd x \<le> n"
    unfolding w_def by blast
  from valid_bets_split[of "bets br" pre' w n post'] vb d(1) obtain pre post where
    s: "bets br = pre @ (w, Some (Amount n)) # post" "valid_bets pre = pre'" "valid_bets post = post'"
    by auto
  have gw: "get_winner br = (Some w, Some (Amount (current_bet br)))"
    using f vb by (simp add: get_winner_def w_def)
  have p1: "\<forall>q m. (q, Some (Amount m)) \<in> set pre \<longrightarrow> m < n"
    using d(2) s(2) by (fastforce simp: valid_bets_mem)
  have p2: "\<forall>q m. (q, Some (Amount m)) \<in> set post \<longrightarrow> m \<le> n"
    using d(3) s(3) by (fastforce simp: valid_bets_mem)
  from gw s(1) p1 p2 show "\<exists>w n pre post.
            get_winner br = (Some w, Some (Amount (current_bet br)))
          \<and> bets br = pre @ (w, Some (Amount n)) # post
          \<and> (\<forall>q m. (q, Some (Amount m)) \<in> set pre \<longrightarrow> m < n)
          \<and> (\<forall>q m. (q, Some (Amount m)) \<in> set post \<longrightarrow> m \<le> n)"
    by blast
qed

lemmas br_eval = BettingRound_init_def dict_from_keys_def player_action_def get_winner_def
  is_round_complete_def active_players_def

text \<open>
  Counterexample to C1 as stated. In a round of players 0 and 1 where player 1 passes and
  nobody bets, the round is complete but \<open>get_winner\<close> returns \<open>(None, None)\<close>, not
  player 0. In the round where player 0 bets, player 1 raises by 2 and then passes, the
  winner returned is player 1, who is no longer active.
\<close>

theorem get_winner_counterexample:
  "player_action (BettingRound_init [0, 1] Grande 1) 1 Pass 0 =
     Inr \<lparr>players = [0, 1], play_type = Grande, current_bet = 1,
          bets = [(0, None), (1, None)], active = [(0, True), (1, False)],
          last_raiser = None, finished = False\<rparr>
   \<and> is_round_complete \<lparr>players = [0, 1], play_type = Grande, current_bet = 1,
          bets = [(0, None), (1, None)], active = [(0, True), (1, False)],
          last_raiser = None, finished = False\<rparr> = Inr True
   \<and> get_winner \<lparr>players = [0, 1], play_type = Grande, current_bet = 1,
          bets = [(0, None), (1, None)], active = [(0, True), (1, False)],
          last_raiser = None, finished = False\<rparr> = (None, None)
   \<and> get_winner \<lparr>players = [0, 1], play_type = Grande, current_bet = 3,
          bets = [(0, Some (Amount 1)), (1, Some (Amount 3))], active = [(0, True), (1, False)],
          last_raiser = Some 1, finished = False\<rparr> = (Some 1, Some (Amount 3))"
  by (simp add: br_eval)

text \<open>
  Witness for C1: the pass-only round, and a three-player round where players 1 and 2 tie
  on the highest bet.
\<close>

theorem get_winner_by_design_witness:
  "get_winner \<lparr>players = [0, 1], play_type = Grande, current_bet = 1,
          bets = [(0, None), (1, None)], active = [(0, True), (1, False)],
          last_raiser = None, finished = False\<rparr> = (None, None)
   \<and> is_round_complete \<lparr>players = [0, 1], play_type = Grande, current_bet = 1,
          bets = [(0, None), (1, None)], active = [(0, True), (1, False)],
          last_raiser = None, finished = False\<rparr> = Inr True
   \<and> (\<exists>w n pre post.
         get_winner \<lparr>players = [0, 1, 2], play_type = Grande, current_bet = 3,
          bets = [(0, Some (Amount 1)), (1, Some (Amount 3)), (2, Some (Amount 3))],
          active = [(0, True), (1, False), (2, True)],
          last_raiser = Some 1, finished = False\<rparr> = (Some w, Some (Amount 3))
          \<and> [(0, Some (Amount 1)), (1, Some (Amount 3)), (2, Some (Amount 3))]
               = pre @ (w, Some (Amount n)) # post
          \<and> (\<forall>q m. (q, Some (Amount m)) \<in> set pre \<longrightarrow> m < n)
          \<and> (\<forall>q m. (q, Some (Amount m)) \<in> set post \<longrightarrow> m \<le> n))"
proof -
  let ?a = "\<lparr>players = [0, 1], play_type = Grande, current_bet = 1,
          bets = [(0, None), (1, None)], active = [(0::nat, True), (1, False)],
          last_raiser = None, finished = False\<rparr>"
  let ?b = "\<lparr>players = [0, 1, 2], play_type = Grande, current_bet = 3,
          bets = [(0, Some (Amount 1)), (1, Some (Amount 3)), (2, Some (Amount 3))],
          active = [(0, True), (1, False), (2, True)],
          last_raiser = Some 1, finished = False\<rparr>"
  have 1: "get_winner ?a = (None, None)" and 2: "is_round_complete ?a = Inr True"
    using get_winner_by_design[of ?a] by (simp_all add: active_players_def)
  have 3: "\<exists>w n pre post.
         get_winner ?b = (Some w, Some (Amount 3))
          \<and> [(0, Some (Amount 1)), (1, Some (Amount 3)), (2, Some (Amount 3))]
               = pre @ (w, Some (Amount n)) # post
          \<and> (\<forall>q m. (q, Some (Amount m)) \<in> set pre \<longrightarrow> m < n)
          \<and> (\<forall>q m. (q, Some (Amount m)) \<in> set post \<longrightarrow> m \<le> n)"
    using get_winner_by_design[of ?b, THEN conjunct2, THEN conjunct2] by auto
  from 1 2 3 show ?thesis by blast
qed


lemma find_ordago_update:
  "\<forall>q. (q, Some OrdagoBet) \<notin> set bs \<Longrightarrow>
   find (\<lambda>pb. snd pb = Some OrdagoBet) (AList.update p (Some OrdagoBet) bs) = Some (p, Some OrdagoBet)"
  by (induction bs) auto

lemma find_ordago_snd:
  "find (\<lambda>pb. snd pb = Some OrdagoBet) bs = Some pb \<Longrightarrow> snd pb = Some OrdagoBet"
  by (induction bs) (auto split: if_splits)

lemma find_ordago_update_Some:
  "\<exists>pb. find (\<lambda>pb. snd pb = Some OrdagoBet) (AList.update p (Some OrdagoBet) bs) = Some pb"
  by (induction bs) auto

text \<open>
  On any round, an \<open>ordago\<close> by an active player records the all-in sentinel for that
  player and sets \<open>finished\<close>; \<open>get_winner\<close> then reports the outcome \<open>'ordago'\<close>
  whatever numeric bets are recorded, and names the acting player when no all-in was
  recorded before the action.
\<close>

lemma ordago_action_any_round:
  assumes "map_of (active br) p = Some True"
  shows "\<exists>br'. player_action br p Ordago amount = Inr br'
           \<and> map_of (bets br') p = Some (Some OrdagoBet)
           \<and> finished br'
           \<and> snd (get_winner br') = Some OrdagoBet
           \<and> ((\<forall>q. (q, Some OrdagoBet) \<notin> set (bets br)) \<longrightarrow> get_winner br' = (Some p, Some OrdagoBet))"
proof -
  let ?br' = "br\<lparr>bets := AList.update p (Some OrdagoBet) (bets br), finished := True\<rparr>"
  have 1: "player_action br p Ordago amount = Inr ?br'"
    using assms by (simp add: player_action_def)
  have 2: "map_of (bets ?br') p = Some (Some OrdagoBet)"
    by (simp add: update_conv')
  obtain pb where pb: "find (\<lambda>pb. snd pb = Some OrdagoBet) (bets ?br') = Some pb"
    using find_ordago_update_Some[of p "bets br"] by auto
  then have 3: "snd (get_winner ?br') = Some OrdagoBet"
    by (simp add: get_winner_def)
  have 4: "(\<forall>q. (q, Some OrdagoBet) \<notin> set (bets br)) \<longrightarrow> get_winner ?br' = (Some p, Some OrdagoBet)"
    by (simp add: get_winner_def find_ordago_update)
  from 1 2 3 4 show ?thesis by simp
qed

text \<open>
  On a round already finished by an all-in the picture differs: \<open>player_action\<close> does not
  look at \<open>finished\<close>, so after player 0 went all-in player 1, still active, can go
  all-in too, and \<open>get_winner\<close> keeps returning player 0.
\<close>

lemma ordago_on_finished_round:
  "player_action (BettingRound_init [0, 1] Grande 1) 0 Ordago 0 =
     Inr \<lparr>players = [0, 1], play_type = Grande, current_bet = 1,
          bets = [(0, Some OrdagoBet), (1, None)], active = [(0, True), (1, True)],
          last_raiser = None, finished = True\<rparr>
   \<and> player_action \<lparr>players = [0, 1], play_type = Grande, current_bet = 1,
          bets = [(0, Some OrdagoBet), (1, None)], active = [(0, True), (1, True)],
          last_raiser = None, finished = True\<rparr> 1 Ordago 0 =
     Inr \<lparr>players = [0, 1], play_type = Grande, current_bet = 1,
          bets = [(0, Some OrdagoBet), (1, Some OrdagoBet)], active = [(0, True), (1, True)],
          last_raiser = None, finished = True\<rparr>
   \<and> get_winner \<lparr>players = [0, 1], play_type = Grande, current_bet = 1,
          bets = [(0, Some OrdagoBet), (1, Some OrdagoBet)], active = [(0, True), (1, True)],
          last_raiser = None, finished = True\<rparr> = (Some 0, Some OrdagoBet)"
  by (simp add: br_eval)

text \<open>
  Claim C7, as the code has it. A \<open>raise\<close> by an active player is applied whatever the
  sign of the amount: nothing is raised, \<open>current_bet\<close> grows by the amount (so it shrinks
  for a negative one), the player's bet becomes the new \<open>current_bet\<close> and the player
  becomes last raiser. Other players' bets, the active flags and \<open>finished\<close> stay.
\<close>

theorem raise_any_amount:
  assumes "map_of (active br) p = Some True"
  shows "\<exists>br'. player_action br p Raise amount = Inr br'
           \<and> current_bet br' = current_bet br + amount
           \<and> map_of (bets br') p = Some (Some (Amount (current_bet br + amount)))
           \<and> (\<forall>q. q \<noteq> p \<longrightarrow> map_of (bets br') q = map_of (bets br) q)
           \<and> last_raiser br' = Some p
           \<and> active br' = active br \<and> finished br' = finished br \<and> players br' = players br"
  using assms by (simp add: player_action_def update_conv')

text \<open>
  Witness for C7: raising by -3 in a fresh round moves the current bet from 1 to -2.
\<close>

theorem raise_any_amount_witness:
  "\<exists>br'. player_action (BettingRound_init [0, 1] Chica 1) 0 Raise (- 3) = Inr br'
         \<and> current_bet br' = - 2
         \<and> map_of (bets br') 0 = Some (Some (Amount (- 2)))
         \<and> map_of (bets br') 1 = Some None
         \<and> last_raiser br' = Some 0"
  using raise_any_amount[of "BettingRound_init [0, 1] Chica 1" 0 "- 3"]
  by (auto simp add: BettingRound_init_def dict_from_keys_def)

text \<open>
  Counterexample to C7 as stated. A raise by 0 returns normally and changes the recorded
  bets and the last raiser; a raise by -1 also lowers \<open>current_bet\<close>.
\<close>

theorem raise_nonpositive_counterexample:
  "player_action (BettingRound_init [0, 1] Grande 1) 0 Raise 0 =
     Inr \<lparr>players = [0, 1], play_type = Grande, current_bet = 1,
          bets = [(0, Some (Amount 1)), (1, None)], active = [(0, True), (1, True)],
          last_raiser = Some 0, finished = False\<rparr>
   \<and> player_action (BettingRound_init [0, 1] Grande 1) 0 Raise 0
        \<noteq> Inr (BettingRound_init [0, 1] Grande 1)
   \<and> player_action (BettingRound_init [0, 1] Grande 1) 0 Raise (- 1) =
     Inr \<lparr>players = [0, 1], play_type = Grande, current_bet = 0,
          bets = [(0, Some (Amount 0)), (1, None)], active = [(0, True), (1, True)],
          last_raiser = Some 0, finished = False\<rparr>"
  by (simp add: br_eval)

lemma map_of_False_update:
  "map_of al q = Some False \<Longrightarrow> map_of (AList.update p False al) q = Some False"
  by (simp add: update_conv')

text \<open>
  Claim C9, as the code has it. \<open>player_action\<close> checks only the acting player's active
  flag. An action by a player marked inactive leaves the round as it is; no action clears
  \<open>finished\<close> or reactivates a player; hence a round in which nobody is active never
  changes again (an unknown player raises \<open>KeyError\<close>).
\<close>

theorem inactive_player_no_change:
  "(map_of (active br) p = Some False \<longrightarrow> player_action br p act amount = Inr br)
   \<and> (\<forall>br'. player_action br p act amount = Inr br' \<longrightarrow>
         (finished br \<longrightarrow> finished br')
       \<and> (\<forall>q. map_of (active br) q = Some False \<longrightarrow> map_of (active br') q = Some False))
   \<and> ((\<forall>pa \<in> set (active br). \<not> snd pa) \<longrightarrow>
         player_action br p act amount = Inr br \<or> player_action br p act amount = Inl KeyError)"
proof (intro conjI impI allI)
  assume "map_of (active br) p = Some False"
  then show "player_action br p act amount = Inr br" by (simp add: player_action_def)
next
  fix br' assume a: "player_action br p act amount = Inr br'" and f: "finished br"
  then show "finished br'"
    by (cases act) (auto simp: player_action_def Let_def split: option.splits bool.splits)
next
  fix br' q
  assume a: "player_action br p act amount = Inr br'" and f: "map_of (active br) q = Some False"
  then show "map_of (active br') q = Some False"
    by (cases act) (auto simp: player_action_def Let_def update_conv' split: option.splits bool.splits)
next
  assume a: "\<forall>pa \<in> set (active br). \<not> snd pa"
  show "player_action br p act amount = Inr br \<or> player_action br p act amount = Inl KeyError"
  proof (cases "map_of (active br) p")
    case None
    then show ?thesis by (simp add: player_action_def)
  next
    case (Some b)
    then have "(p, b) \<in> set (active br)" by (rule map_of_SomeD)
    with a have "\<not> b" by force
    with Some show ?thesis by (simp add: player_action_def)
  qed
qed

text \<open>
  Witness for C9: a raise by an inactive player, and a call in a finished round.
\<close>

theorem inactive_player_no_change_witness:
  "player_action \<lparr>players = [0, 1], play_type = Juego, current_bet = 2,
          bets = [(0, Some (Amount 2)), (1, None)], active = [(0, False), (1, False)],
          last_raiser = Some 0, finished = False\<rparr> 0 Raise 5
   = Inr \<lparr>players = [0, 1], play_type = Juego, current_bet = 2,
          bets = [(0, Some (Amount 2)), (1, None)], active = [(0, False), (1, False)],
          last_raiser = Some 0, finished = False\<rparr>
   \<and> (\<exists>br'. player_action \<lparr>players = [0, 1], play_type = Juego, current_bet = 2,
          bets = [(0, Some OrdagoBet), (1, None)], active = [(0, False), (1, True)],
          last_raiser = Some 0, finished = True\<rparr> 1 Call 0 = Inr br'
        \<and> finished br' \<and> map_of (active br') 0 = Some False)"
proof -
  let ?a = "\<lparr>players = [0, 1], play_type = Juego, current_bet = 2,
          bets = [(0::nat, Some (Amount 2)), (1, None)], active = [(0::nat, False), (1, False)],
          last_raiser = Some 0, finished = False\<rparr>"
  let ?b = "\<lparr>players = [0, 1], play_type = Juego, current_bet = 2,
          bets = [(0::nat, Some OrdagoBet), (1, None)], active = [(0::nat, False), (1, True)],
          last_raiser = Some 0, finished = True\<rparr>"
  have 1: "player_action ?a 0 Raise 5 = Inr ?a"
    using inactive_player_no_change[of ?a 0 Raise 5] by simp
  have "\<exists>br'. player_action ?b 1 Call 0 = Inr br'" by (simp add: player_action_def)
  then obtain br' where b: "player_action ?b 1 Call 0 = Inr br'" by blast
  with inactive_player_no_change[of ?b 1 Call 0] have "finished br' \<and> map_of (active br') 0 = Some False"
    by simp
  with 1 b show ?thesis by blast
qed

text \<open>
  Counterexample to C9 as stated. After player 0 bets, the completion rule holds (one
  recorded bet); player 1's raise still changes \<open>current_bet\<close>, the bets and the last
  raiser. In a round finished by an all-in, player 1's pass still clears an active flag.
\<close>

theorem complete_round_counterexample:
  "player_action (BettingRound_init [0, 1] Grande 1) 0 Bet 0 =
     Inr \<lparr>players = [0, 1], play_type = Grande, current_bet = 1,
          bets = [(0, Some (Amount 1)), (1, None)], active = [(0, True), (1, True)],
          last_raiser = Some 0, finished = False\<rparr>
   \<and> is_round_complete \<lparr>players = [0, 1], play_type = Grande, current_bet = 1,
          bets = [(0, Some (Amount 1)), (1, None)], active = [(0, True), (1, True)],
          last_raiser = Some 0, finished = False\<rparr> = Inr True
   \<and> player_action \<lparr>players = [0, 1], play_type = Grande, current_bet = 1,
          bets = [(0, Some (Amount 1)), (1, None)], active = [(0, True), (1, True)],
          last_raiser = Some 0, finished = False\<rparr> 1 Raise 2 =
     Inr \<lparr>players = [0, 1], play_type = Grande, current_bet = 3,
          bets = [(0, Some (Amount 1)), (1, Some (Amount 3))], active = [(0, True), (1, True)],
          last_raiser = Some 1, finished = False\<rparr>
   \<and> player_action \<lparr>players = [0, 1], play_type = Grande, current_bet = 1,
          bets = [(0, Some OrdagoBet), (1, None)], active = [(0, True), (1, True)],
          last_raiser = None, finished = True\<rparr> 1 Pass 0 =
     Inr \<lparr>players = [0, 1], play_type = Grande, current_bet = 1,
          bets = [(0, Some OrdagoBet), (1, None)], active = [(0, True), (1, False)],
          last_raiser = None, finished = True\<rparr>"
  by (simp add: br_eval)

section \<open>The simulated betting round always ends\<close>

lemma fold_update_keys:
  "fst ` set (fold (\<lambda>k. AList.update k v) ks al) = set ks \<union> fst ` set al"
  by (induction ks arbitrary: al) (auto simp: dom_update)

lemma fold_update_distinct:
  "distinct (map fst al) \<Longrightarrow> distinct (map fst (fold (\<lambda>k. AList.update k v) ks al))"
  by (induction ks arbitrary: al) (auto simp: distinct_update)

lemma set_update_subset: "set (AList.update k v al) \<subseteq> insert (k, v) (set al)"
  by (induction al) auto

lemma fold_update_values:
  "\<forall>pb \<in> set al. snd pb = v \<Longrightarrow> \<forall>pb \<in> set (fold (\<lambda>k. AList.update k v) ks al). snd pb = v"
proof (induction ks arbitrary: al)
  case Nil
  then show ?case by simp
next
  case (Cons k ks)
  have "\<forall>pb \<in> set (AList.update k v al). snd pb = v"
    using Cons.prems set_update_subset[of k v al] by auto
  from Cons.IH[OF this] show ?case by simp
qed

lemma init_keys_ok: "keys_ok (BettingRound_init ps pt ib)"
  by (simp add: keys_ok_def BettingRound_init_def dict_from_keys_def fold_update_keys fold_update_distinct)

lemma init_no_bets: "no_bets (BettingRound_init ps pt ib)"
  using fold_update_values[of "[]" None ps]
  by (simp add: no_bets_def BettingRound_init_def dict_from_keys_def)

lemma init_active_keys: "fst ` set (active (BettingRound_init ps pt ib)) = set ps"
  by (simp add: BettingRound_init_def dict_from_keys_def fold_update_keys)

lemma active_bets_total:
  "set qs \<subseteq> fst ` set bs \<Longrightarrow> \<exists>xs. active_bets bs qs = Inr xs"
proof (induction qs)
  case Nil
  then show ?case by simp
next
  case (Cons q qs)
  then obtain xs where xs: "active_bets bs qs = Inr xs" by auto
  from Cons.prems have "map_of bs q \<noteq> None" by (simp add: map_of_eq_None_iff)
  then obtain v where v: "map_of bs q = Some v" by blast
  show ?case
  proof (cases v)
    case None
    with v xs show ?thesis by simp
  next
    case (Some b)
    with v xs show ?thesis by (cases b) simp_all
  qed
qed

lemma active_bets_single:
  assumes "active_bets bs qs = Inr xs"
      and "\<forall>q b. map_of bs q = Some (Some b) \<longrightarrow> b = Amount x"
  shows "set xs \<subseteq> {x}"
  using assms(1)
proof (induction qs arbitrary: xs)
  case Nil
  then show ?case by simp
next
  case (Cons q qs)
  show ?case
  proof (cases "map_of bs q")
    case None
    with Cons.prems show ?thesis by simp
  next
    case (Some v)
    show ?thesis
    proof (cases v)
      case None
      with Some Cons show ?thesis by simp
    next
      case (Some b)
      with \<open>map_of bs q = Some v\<close> assms(2) have b: "b = Amount x" by blast
      from Cons.prems \<open>map_of bs q = Some v\<close> Some b
      obtain ys where ys: "active_bets bs qs = Inr ys" "xs = x # ys"
        by (auto split: sum.splits)
      with Cons.IH[of ys] show ?thesis by simp
    qed
  qed
qed

lemma active_bets_nonempty:
  assumes "active_bets bs qs = Inr xs" and "p \<in> set qs" and "map_of bs p = Some (Some (Amount x))"
  shows "xs \<noteq> []"
  using assms(1,2)
proof (induction qs arbitrary: xs)
  case Nil
  then show ?case by simp
next
  case (Cons q qs)
  show ?case
  proof (cases "q = p")
    case True
    with Cons.prems(1) assms(3) show ?thesis by (auto split: sum.splits)
  next
    case False
    with Cons.prems(2) have p: "p \<in> set qs" by simp
    from Cons.prems(1) have "\<exists>ys. active_bets bs qs = Inr ys"
      by (auto split: option.splits bet.splits sum.splits)
    then obtain ys where ys: "active_bets bs qs = Inr ys" by blast
    from Cons.IH[OF ys p] have "ys \<noteq> []" .
    with Cons.prems(1) ys show ?thesis
      by (auto split: option.splits bet.splits sum.splits)
  qed
qed

lemma is_round_complete_total:
  "keys_ok br \<Longrightarrow> \<exists>b. is_round_complete br = Inr b"
proof -
  assume k: "keys_ok br"
  have "set (active_players br) \<subseteq> fst ` set (active br)"
    by (auto simp: active_players_def)
  with k have "set (active_players br) \<subseteq> fst ` set (bets br)"
    by (auto simp: keys_ok_def)
  from active_bets_total[OF this] show ?thesis
    by (auto simp: is_round_complete_def)
qed

lemma complete_after_first_bet:
  assumes nb: "no_bets br" and k: "keys_ok br" and a: "map_of (active br) p = Some True"
      and b': "bets br' = AList.update p (Some (Amount x)) (bets br)" and a': "active br' = active br"
  shows "is_round_complete br' = Inr True"
proof (cases "length (active_players br') \<le> 1")
  case True
  then show ?thesis by (simp add: is_round_complete_def)
next
  case False
  have sub: "set (active_players br') \<subseteq> fst ` set (bets br')"
    using k a' b' by (auto simp: active_players_def keys_ok_def dom_update)
  from active_bets_total[OF sub] obtain xs where xs: "active_bets (bets br') (active_players br') = Inr xs"
    by blast
  have vals: "\<forall>q b. map_of (bets br') q = Some (Some b) \<longrightarrow> b = Amount x"
  proof (intro allI impI)
    fix q b assume m: "map_of (bets br') q = Some (Some b)"
    show "b = Amount x"
    proof (cases "q = p")
      case True
      with m b' show ?thesis by (simp add: update_conv')
    next
      case False
      with m b' have "map_of (bets br) q = Some (Some b)" by (simp add: update_conv')
      then have "(q, Some b) \<in> set (bets br)" by (rule map_of_SomeD)
      with nb show ?thesis by (auto simp: no_bets_def)
    qed
  qed
  from a have "(p, True) \<in> set (active br)" by (rule map_of_SomeD)
  then have pin: "p \<in> set (active_players br')"
    using a' by (force simp: active_players_def)
  have mp: "map_of (bets br') p = Some (Some (Amount x))" using b' by (simp add: update_conv')
  from active_bets_single[OF xs vals] have s: "set xs \<subseteq> {x}" .
  from active_bets_nonempty[OF xs pin mp] have ne: "xs \<noteq> []" .
  from s ne have "set xs = {x}" by (cases xs) auto
  then have "length (remdups xs) = 1" by (simp add: length_remdups_card_conv)
  with xs ne False show ?thesis by (simp add: is_round_complete_def)
qed

lemma player_action_numeric:
  assumes "map_of (active br) p = Some True" and "act \<in> {Bet, Raise, Call}"
  shows "\<exists>br1 x. player_action br p act amt = Inr br1
           \<and> bets br1 = AList.update p (Some (Amount x)) (bets br)
           \<and> active br1 = active br \<and> finished br1 = finished br"
  using assms by (auto simp: player_action_def Let_def)

lemma player_action_pass:
  assumes "map_of (active br) p = Some True"
  shows "player_action br p Pass amt = Inr (br\<lparr>active := AList.update p False (active br)\<rparr>)"
  using assms by (simp add: player_action_def)

lemma random_action_cases:
  "fst (random_choice [Bet, Raise, Call, Pass] r) \<in> {Bet, Raise, Call, Pass}"
proof -
  have "r 0 mod 4 < 4" by simp
  then consider "r 0 mod 4 = 0" | "r 0 mod 4 = 1" | "r 0 mod 4 = 2" | "r 0 mod 4 = 3"
    by linarith
  then show ?thesis
    by cases (simp_all add: random_choice_def randbelow_def)
qed

lemma no_bets_no_ordago: "no_bets br \<Longrightarrow> no_ordago br"
  by (force simp: no_bets_def no_ordago_def)

lemma for_players_step:
  assumes "map_of (active br) p = Some True"
  shows "\<exists>act amt r2. act \<in> {Bet, Raise, Call, Pass} \<and>
           for_players (p # ps) br r =
             (case player_action br p act amt of
                Inl e \<Rightarrow> (Inl e, r2)
              | Inr br' \<Rightarrow>
                 (case is_round_complete br' of
                    Inl e \<Rightarrow> (Inl e, r2)
                  | Inr True \<Rightarrow> (Inr br', r2)
                  | Inr False \<Rightarrow> for_players ps br' r2))"
  using assms random_action_cases[of r]
  by (simp add: Let_def del: insert_iff) blast

lemma for_players_fresh:
  assumes "no_bets br" and "keys_ok br" and "set qs \<subseteq> fst ` set (active br)"
  shows "\<exists>br'. fst (for_players qs br r) = Inr br' \<and> keys_ok br' \<and> no_ordago br'
           \<and> finished br' = finished br
           \<and> (is_round_complete br' = Inr True
              \<or> (no_bets br' \<and> fst ` set (active br') = fst ` set (active br)
                  \<and> (\<forall>q. q \<in> set qs \<or> map_of (active br) q = Some False
                          \<longrightarrow> map_of (active br') q = Some False)))"
  using assms
proof (induction qs arbitrary: br r)
  case Nil
  then show ?case by (auto simp: no_bets_no_ordago)
next
  case (Cons p qs)
  from Cons.prems(3) have "map_of (active br) p \<noteq> None" by (simp add: map_of_eq_None_iff)
  then obtain b where b: "map_of (active br) p = Some b" by blast
  show ?case
  proof (cases b)
    case False
    with b have fp: "for_players (p # qs) br r = for_players qs br r" by simp
    from Cons.prems(3) have "set qs \<subseteq> fst ` set (active br)" by simp
    from Cons.IH[OF Cons.prems(1,2) this, of r] obtain br' where
      r: "fst (for_players qs br r) = Inr br'" "keys_ok br'" "no_ordago br'"
         "finished br' = finished br"
         "is_round_complete br' = Inr True
              \<or> (no_bets br' \<and> fst ` set (active br') = fst ` set (active br)
                  \<and> (\<forall>q. q \<in> set qs \<or> map_of (active br) q = Some False
                          \<longrightarrow> map_of (active br') q = Some False))"
      by blast
    from r(5) b False have "is_round_complete br' = Inr True
              \<or> (no_bets br' \<and> fst ` set (active br') = fst ` set (active br)
                  \<and> (\<forall>q. q \<in> set (p # qs) \<or> map_of (active br) q = Some False
                          \<longrightarrow> map_of (active br') q = Some False))"
      by auto
    with r(1-4) fp show ?thesis by auto
  next
    case True
    with b have act: "map_of (active br) p = Some True" by simp
    from for_players_step[OF act, of qs r] obtain act amt r2 where
      a: "act \<in> {Bet, Raise, Call, Pass}" and
      fp: "for_players (p # qs) br r =
             (case player_action br p act amt of
                Inl e \<Rightarrow> (Inl e, r2)
              | Inr br' \<Rightarrow>
                 (case is_round_complete br' of
                    Inl e \<Rightarrow> (Inl e, r2)
                  | Inr True \<Rightarrow> (Inr br', r2)
                  | Inr False \<Rightarrow> for_players qs br' r2))"
      by blast
    show ?thesis
    proof (cases "act = Pass")
      case False
      with a have "act \<in> {Bet, Raise, Call}" by auto
      from player_action_numeric[OF act this, of amt] obtain br1 x where
        p1: "player_action br p act amt = Inr br1"
            "bets br1 = AList.update p (Some (Amount x)) (bets br)"
            "active br1 = active br" "finished br1 = finished br"
        by blast
      from complete_after_first_bet[OF Cons.prems(1,2) act p1(2,3)]
      have c: "is_round_complete br1 = Inr True" .
      have k: "keys_ok br1" using Cons.prems(2) p1(2,3) by (auto simp: keys_ok_def dom_update)
      have "set (bets br1) \<subseteq> insert (p, Some (Amount x)) (set (bets br))"
        using p1(2) set_update_subset[of p "Some (Amount x)" "bets br"] by simp
      then have no: "no_ordago br1"
        using Cons.prems(1) by (force simp: no_ordago_def no_bets_def)
      from fp p1(1) c have "fst (for_players (p # qs) br r) = Inr br1" by simp
      with k no c p1(4) show ?thesis by blast
    next
      case True
      let ?br1 = "br\<lparr>active := AList.update p False (active br)\<rparr>"
      from True player_action_pass[OF act, of amt]
      have p1: "player_action br p act amt = Inr ?br1" by simp
      have pk: "p \<in> fst ` set (active br)" using Cons.prems(3) by simp
      have keys: "fst ` set (active ?br1) = fst ` set (active br)"
        using pk by (auto simp: dom_update)
      have k: "keys_ok ?br1"
        using Cons.prems(2) keys by (simp add: keys_ok_def distinct_update)
      have nb: "no_bets ?br1" using Cons.prems(1) by (simp add: no_bets_def)
      from is_round_complete_total[OF k] obtain c where c: "is_round_complete ?br1 = Inr c" by blast
      show ?thesis
      proof (cases c)
        case True
        with fp p1 c have f1: "fst (for_players (p # qs) br r) = Inr ?br1" by simp
        from c True have cc: "is_round_complete ?br1 = Inr True" by simp
        have f2: "finished ?br1 = finished br" by simp
        from f1 k no_bets_no_ordago[OF nb] f2 cc show ?thesis
          by (intro exI[of _ ?br1] conjI disjI1)
      next
        case False
        with fp p1 c have fp': "for_players (p # qs) br r = for_players qs ?br1 r2" by simp
        have sub: "set qs \<subseteq> fst ` set (active ?br1)" using Cons.prems(3) keys by simp
        from Cons.IH[OF nb k sub, of r2] obtain br' where
          r: "fst (for_players qs ?br1 r2) = Inr br'" "keys_ok br'" "no_ordago br'"
             "finished br' = finished ?br1"
             "is_round_complete br' = Inr True
              \<or> (no_bets br' \<and> fst ` set (active br') = fst ` set (active ?br1)
                  \<and> (\<forall>q. q \<in> set qs \<or> map_of (active ?br1) q = Some False
                          \<longrightarrow> map_of (active br') q = Some False))"
          by blast
        have m: "\<And>q. q = p \<or> map_of (active br) q = Some False \<Longrightarrow> map_of (active ?br1) q = Some False"
          by (auto simp: update_conv')
        from r(5) keys m have "is_round_complete br' = Inr True
              \<or> (no_bets br' \<and> fst ` set (active br') = fst ` set (active br)
                  \<and> (\<forall>q. q \<in> set (p # qs) \<or> map_of (active br) q = Some False
                          \<longrightarrow> map_of (active br') q = Some False))"
          by auto
        with r(1-4) fp' show ?thesis by auto
      qed
    qed
  qed
qed

lemma all_inactive_complete:
  assumes "distinct (map fst (active br))"
      and "\<forall>q \<in> fst ` set (active br). map_of (active br) q = Some False"
  shows "is_round_complete br = Inr True"
proof -
  have "filter snd (active br) = []"
  proof (rule ccontr)
    assume "filter snd (active br) \<noteq> []"
    then obtain q v where qv: "(q, v) \<in> set (active br)" "v"
      by (metis filter_False prod.collapse)
    with assms(1) have "map_of (active br) q = Some v" by simp
    moreover from qv(1) assms(2) have "map_of (active br) q = Some False" by force
    ultimately show False using qv(2) by simp
  qed
  then show ?thesis by (simp add: is_round_complete_def active_players_def)
qed

lemma betting_loop_fresh:
  "\<exists>br' r'. betting_loop ps (BettingRound_init ps pt ib) r = Some (Inr br', r') \<and> no_ordago br'"
proof -
  let ?br0 = "BettingRound_init ps pt ib"
  have nf: "\<not> finished ?br0" by (simp add: BettingRound_init_def)
  from is_round_complete_total[OF init_keys_ok] obtain c where c: "is_round_complete ?br0 = Inr c"
    by blast
  show ?thesis
  proof (cases c)
    case True
    with c nf have "betting_loop ps ?br0 r = Some (Inr ?br0, r)"
      by (subst betting_loop.simps) simp
    then show ?thesis using no_bets_no_ordago[OF init_no_bets] by blast
  next
    case False
    have sub: "set ps \<subseteq> fst ` set (active ?br0)" by (simp add: init_active_keys)
    from for_players_fresh[OF init_no_bets init_keys_ok sub, of r] obtain br' where
      r: "fst (for_players ps ?br0 r) = Inr br'" "keys_ok br'" "no_ordago br'"
         "finished br' = finished ?br0"
         "is_round_complete br' = Inr True
              \<or> (no_bets br' \<and> fst ` set (active br') = fst ` set (active ?br0)
                  \<and> (\<forall>q. q \<in> set ps \<or> map_of (active ?br0) q = Some False
                          \<longrightarrow> map_of (active br') q = Some False))"
      by blast
    have comp: "is_round_complete br' = Inr True"
    proof (rule disjE[OF r(5)])
      assume "no_bets br' \<and> fst ` set (active br') = fst ` set (active ?br0)
                  \<and> (\<forall>q. q \<in> set ps \<or> map_of (active ?br0) q = Some False
                          \<longrightarrow> map_of (active br') q = Some False)"
      then have h: "\<forall>q \<in> fst ` set (active br'). map_of (active br') q = Some False"
        by (simp add: init_active_keys)
      from r(2) have d: "distinct (map fst (active br'))" by (simp add: keys_ok_def)
      show ?thesis by (rule all_inactive_complete[OF d h])
    qed
    have stop: "betting_loop ps br' (snd (for_players ps ?br0 r)) = Some (Inr br', snd (for_players ps ?br0 r))"
      using comp by (subst betting_loop.simps) simp
    have "betting_loop ps ?br0 r = betting_loop ps br' (snd (for_players ps ?br0 r))"
      using c False nf r(1) by (subst betting_loop.simps) simp
    with stop r(3) show ?thesis by auto
  qed
qed

section \<open>What the operations of a game preserve\<close>

lemma length_shuffle_from: "length (fst (shuffle_from i xs r)) = length xs"
  by (induction i arbitrary: xs r) (simp_all add: Let_def)

lemma length_shuffle: "length (fst (shuffle xs r)) = length xs"
  by (simp add: shuffle_def length_shuffle_from)

lemma draw_from_deck_cards:
  "length (fst (draw_from_deck n g)) + length (deck (snd (draw_from_deck n g)))
     + length (discard_pile (snd (draw_from_deck n g)))
   = length (deck g) + length (discard_pile g)"
  by (simp add: draw_from_deck_def reshuffle_if_short_def Let_def deal_def length_shuffle min_def)

lemma draw_from_deck_frame:
  "hands (snd (draw_from_deck n g)) = hands g"
  "scores (snd (draw_from_deck n g)) = scores g"
  "target_score (snd (draw_from_deck n g)) = target_score g"
  "num_players (snd (draw_from_deck n g)) = num_players g"
  by (simp_all add: draw_from_deck_def reshuffle_if_short_def Let_def)

lemma draw_nothing:
  "fst (draw_from_deck 0 g) = []"
  "deck (snd (draw_from_deck 0 g)) = deck g"
  "discard_pile (snd (draw_from_deck 0 g)) = discard_pile g"
  by (simp_all add: draw_from_deck_def reshuffle_if_short_def Let_def deal_def slice_point_def)

lemma hand_sum_update_Some:
  "map_of hs p = Some h \<Longrightarrow> hand_sum (AList.update p v hs) + length h = hand_sum hs + length v"
  by (induction hs) (auto simp: hand_sum_def)

lemma hand_sum_update_None:
  "map_of hs p = None \<Longrightarrow> hand_sum (AList.update p v hs) = hand_sum hs + length v"
  by (induction hs) (auto simp: hand_sum_def)

lemma hand_sum_update_empty:
  assumes "map_of hs p = None \<or> map_of hs p = Some []"
  shows "hand_sum (AList.update p v hs) = hand_sum hs + length v"
  using assms hand_sum_update_Some[of hs p "[]" v] hand_sum_update_None[of hs p v] by auto

lemma deal_hands_frame:
  "scores (deal_hands ps g) = scores g \<and> target_score (deal_hands ps g) = target_score g
   \<and> num_players (deal_hands ps g) = num_players g"
  by (induction ps arbitrary: g) (simp_all add: draw_from_deck_frame)

lemma deal_hands_cards:
  assumes "distinct ps" and "\<forall>p \<in> set ps. map_of (hands g) p = None \<or> map_of (hands g) p = Some []"
  shows "card_total (deal_hands ps g) = card_total g"
  using assms
proof (induction ps arbitrary: g)
  case Nil
  then show ?case by simp
next
  case (Cons p ps)
  let ?cs = "fst (draw_from_deck 4 g)"
  let ?g0 = "snd (draw_from_deck 4 g)"
  let ?g1 = "?g0\<lparr>hands := AList.update p ?cs (hands ?g0)\<rparr>"
  have h0: "hands ?g0 = hands g" by (simp add: draw_from_deck_frame)
  from Cons.prems(2) have "map_of (hands g) p = None \<or> map_of (hands g) p = Some []" by simp
  then have hs: "hand_sum (AList.update p ?cs (hands g)) = hand_sum (hands g) + length ?cs"
    by (rule hand_sum_update_empty)
  have ct: "card_total ?g1 = card_total g"
    using draw_from_deck_cards[of 4 g] hs h0 by (simp add: card_total_def)
  have "\<forall>q \<in> set ps. map_of (hands ?g1) q = None \<or> map_of (hands ?g1) q = Some []"
  proof
    fix q assume q: "q \<in> set ps"
    with Cons.prems(1) have "q \<noteq> p" by auto
    then have "map_of (hands ?g1) q = map_of (hands g) q" by (simp add: h0 update_conv')
    with q Cons.prems(2) show "map_of (hands ?g1) q = None \<or> map_of (hands ?g1) q = Some []"
      by simp
  qed
  with Cons.IH[of ?g1] Cons.prems(1) have "card_total (deal_hands ps ?g1) = card_total ?g1" by simp
  with ct show ?case by simp
qed

lemma all_empty_lookup:
  "all_empty g \<Longrightarrow> map_of (hands g) p = None \<or> map_of (hands g) p = Some []"
proof (cases "map_of (hands g) p")
  case None
  then show ?thesis by simp
next
  case (Some h)
  assume "all_empty g"
  moreover from Some have "(p, h) \<in> set (hands g)" by (rule map_of_SomeD)
  ultimately have "h = []" by (force simp: all_empty_def)
  with Some show ?thesis by simp
qed

lemma initial_deal_fields:
  "deck (result_state (initial_deal g)) = deck (deal_hands [0..<num_players g] g)"
  "discard_pile (result_state (initial_deal g)) = discard_pile (deal_hands [0..<num_players g] g)"
  "hands (result_state (initial_deal g)) = hands (deal_hands [0..<num_players g] g)"
  "scores (result_state (initial_deal g)) = scores (deal_hands [0..<num_players g] g)"
  "target_score (result_state (initial_deal g)) = target_score (deal_hands [0..<num_players g] g)"
  by (simp_all add: initial_deal_def determine_mano_def set_turn_order_def
        split: sum.splits option.splits)

lemma initial_deal_cards:
  assumes "all_empty g"
  shows "card_total (result_state (initial_deal g)) = card_total g"
proof -
  have "card_total (deal_hands [0..<num_players g] g) = card_total g"
    using assms by (intro deal_hands_cards) (auto simp: all_empty_lookup)
  then show ?thesis by (simp add: card_total_def initial_deal_fields)
qed

lemma initial_deal_scores: "scores_kept g (result_state (initial_deal g))"
  by (simp add: scores_kept_def initial_deal_fields deal_hands_frame)

lemma perform_discard_scores: "scores_kept g (result_state (perform_discard p idxs g))"
  by (simp add: perform_discard_def Let_def scores_kept_def draw_from_deck_frame split: option.splits)

lemma length_partition_hand:
  "length (filter (\<lambda>ic. fst ic \<notin> set idxs) (zip [0..<length hand] hand))
   + length (filter (\<lambda>ic. fst ic \<in> set idxs) (zip [0..<length hand] hand)) = length hand"
  using sum_length_filter_compl[of "\<lambda>ic. fst ic \<notin> set idxs" "zip [0..<length hand] hand"]
  by simp

lemma perform_discard_cards: "card_total (result_state (perform_discard p idxs g)) = card_total g"
proof (cases "map_of (hands g) p")
  case None
  then show ?thesis by (simp add: perform_discard_def)
next
  case (Some hand)
  let ?ix = "zip [0..<length hand] hand"
  let ?nh = "map snd (filter (\<lambda>ic. fst ic \<notin> set idxs) ?ix)"
  let ?dd = "map snd (filter (\<lambda>ic. fst ic \<in> set idxs) ?ix)"
  let ?g1 = "g\<lparr>hands := AList.update p ?nh (hands g)\<rparr>"
  let ?nc = "fst (draw_from_deck (int (length ?dd)) ?g1)"
  let ?g2 = "snd (draw_from_deck (int (length ?dd)) ?g1)"
  let ?g3 = "?g2\<lparr>hands := AList.update p (?nh @ ?nc) (hands ?g2),
                 discard_pile := discard_pile ?g2 @ ?dd\<rparr>"
  have st: "result_state (perform_discard p idxs g) = ?g3"
    using Some by (simp add: perform_discard_def Let_def)
  have h2: "hands ?g2 = AList.update p ?nh (hands g)" by (simp add: draw_from_deck_frame)
  have hs: "hand_sum (AList.update p (?nh @ ?nc) (hands g)) + length hand
              = hand_sum (hands g) + length (?nh @ ?nc)"
    using Some by (rule hand_sum_update_Some)
  have dr: "length ?nc + length (deck ?g2) + length (discard_pile ?g2)
              = length (deck g) + length (discard_pile g)"
    using draw_from_deck_cards[of "int (length ?dd)" ?g1] by simp
  have pt: "length ?nh + length ?dd = length hand"
    using length_partition_hand[of idxs hand] by simp
  have "card_total ?g3 = length (deck ?g2) + (length (discard_pile ?g2) + length ?dd)
          + hand_sum (AList.update p (?nh @ ?nc) (hands g))"
    by (simp add: card_total_def draw_from_deck_frame)
  also have "\<dots> = card_total g"
    using hs dr pt unfolding card_total_def length_append by linarith
  finally show ?thesis using st by simp
qed

lemma perform_discard_empty:
  assumes "all_empty g"
  shows "all_empty (result_state (perform_discard p idxs g))"
proof (cases "map_of (hands g) p")
  case None
  with assms show ?thesis by (simp add: perform_discard_def)
next
  case (Some hand)
  then have "(p, hand) \<in> set (hands g)" by (rule map_of_SomeD)
  with assms have e: "hand = []" by (force simp: all_empty_def)
  let ?g1 = "g\<lparr>hands := AList.update p [] (hands g)\<rparr>"
  have st: "hands (result_state (perform_discard p idxs g)) = AList.update p [] (hands g)"
    using Some e by (simp add: perform_discard_def Let_def draw_nothing draw_from_deck_frame)
  have "set (AList.update p [] (hands g)) \<subseteq> insert (p, []) (set (hands g))"
    by (rule set_update_subset)
  with assms st show ?thesis by (auto simp: all_empty_def)
qed

lemma intercept_loop_frame:
  "deck (result_state (intercept_loop p os ics g)) = deck g
   \<and> discard_pile (result_state (intercept_loop p os ics g)) = discard_pile g
   \<and> hands (result_state (intercept_loop p os ics g)) = hands g
   \<and> scores (result_state (intercept_loop p os ics g)) = scores g
   \<and> target_score (result_state (intercept_loop p os ics g)) = target_score g"
  by (induction os arbitrary: ics g) (simp_all add: Let_def split: option.splits)

lemma update_covert_signal_frame:
  "deck (result_state (update_covert_signal p sig g)) = deck g
   \<and> discard_pile (result_state (update_covert_signal p sig g)) = discard_pile g
   \<and> hands (result_state (update_covert_signal p sig g)) = hands g
   \<and> scores (result_state (update_covert_signal p sig g)) = scores g
   \<and> target_score (result_state (update_covert_signal p sig g)) = target_score g"
  by (simp add: update_covert_signal_def Let_def intercept_loop_frame split: sum.splits prod.splits)

lemma signal_part_frame:
  "deck (result_state (signal_part p a info g)) = deck g
   \<and> discard_pile (result_state (signal_part p a info g)) = discard_pile g
   \<and> hands (result_state (signal_part p a info g)) = hands g
   \<and> scores (result_state (signal_part p a info g)) = scores g
   \<and> target_score (result_state (signal_part p a info g)) = target_score g"
proof (cases "act_signal a")
  case None
  then show ?thesis by (simp add: signal_part_def)
next
  case (Some sv)
  show ?thesis
  proof (cases "act_type a = Some 5")
    case False
    with Some show ?thesis by (simp add: signal_part_def)
  next
    case True
    with Some have "result_state (signal_part p a info g) = result_state (update_covert_signal p sv g)"
      by (simp add: signal_part_def split: result.splits)
    then show ?thesis by (simp add: update_covert_signal_frame)
  qed
qed

lemma discard_part_state:
  "result_state (discard_part p a g) = g
   \<or> (\<exists>idxs. result_state (discard_part p a g) = result_state (perform_discard p idxs g))"
  by (auto simp: discard_part_def split: option.splits)

lemma mus_actions_frame:
  "card_total (result_state (mus_actions acts info g)) = card_total g
   \<and> scores_kept g (result_state (mus_actions acts info g))
   \<and> (all_empty g \<longrightarrow> all_empty (result_state (mus_actions acts info g)))"
proof (induction acts arbitrary: info g)
  case Nil
  then show ?case by (simp add: scores_kept_def)
next
  case (Cons pa acts)
  obtain p a where pa: "pa = (p, a)" by (cases pa)
  let ?s = "signal_part p a info g"
  let ?g1 = "result_state ?s"
  have f1: "card_total ?g1 = card_total g" "scores_kept g ?g1" "all_empty g \<longrightarrow> all_empty ?g1"
    using signal_part_frame[of p a info g]
    by (simp_all add: card_total_def scores_kept_def all_empty_def)
  show ?case
  proof (cases ?s)
    case (Raised e g1)
    then have "result_state (mus_actions (pa # acts) info g) = ?g1" by (simp add: pa)
    with f1 show ?thesis by simp
  next
    case (Done info1 g1)
    then have g1: "g1 = ?g1" by simp
    let ?d = "discard_part p a g1"
    let ?g2 = "result_state ?d"
    have f2: "card_total ?g2 = card_total g1" "scores_kept g1 ?g2" "all_empty g1 \<longrightarrow> all_empty ?g2"
      using discard_part_state[of p a g1] perform_discard_cards[of p _ g1]
        perform_discard_scores[of g1 p] perform_discard_empty[of g1 p]
      by (auto simp: scores_kept_def)
    show ?thesis
    proof (cases ?d)
      case (Raised e g2)
      with Done have "result_state (mus_actions (pa # acts) info g) = ?g2" by (simp add: pa)
      with f1 f2 g1 show ?thesis by (simp add: scores_kept_def)
    next
      case d: (Done u g2)
      with Done have "result_state (mus_actions (pa # acts) info g)
                        = result_state (mus_actions acts info1 g2)" by (simp add: pa)
      moreover from d have "g2 = ?g2" by simp
      ultimately show ?thesis
        using f1 f2 g1 Cons.IH[of info1 g2] by (simp add: scores_kept_def)
    qed
  qed
qed

lemma no_ordago_winner: "no_ordago br \<Longrightarrow> snd (get_winner br) \<noteq> Some OrdagoBet"
proof -
  assume "no_ordago br"
  then have "find (\<lambda>pb. snd pb = Some OrdagoBet) (bets br) = None"
    by (simp add: find_ordago_None no_ordago_def)
  then show ?thesis by (simp add: get_winner_def split: list.splits)
qed

lemma run_round_result:
  "\<exists>w r'. run_detailed_betting_round c g = Some (Done w (g\<lparr>rng := r'\<rparr>)) \<and> snd w \<noteq> Some OrdagoBet"
proof -
  from betting_loop_fresh[of "turn_order g" c 1 "rng g"] obtain br' r' where
    b: "betting_loop (turn_order g) (BettingRound_init (turn_order g) c 1) (rng g) = Some (Inr br', r')"
    and n: "no_ordago br'" by blast
  have w: "snd (get_winner br') \<noteq> Some OrdagoBet" by (rule no_ordago_winner[OF n])
  with b have "run_detailed_betting_round c g = Some (Done (get_winner br') (g\<lparr>rng := r'\<rparr>))"
    by (simp add: run_detailed_betting_round_def settle_round_def)
  with w show ?thesis by blast
qed

lemma play_loop_result:
  "\<exists>pr r'. play_loop cs g = Some (Done () (g\<lparr>rng := r', play_results := pr\<rparr>))"
proof (induction cs arbitrary: g)
  case Nil
  have "g = g\<lparr>rng := rng g, play_results := play_results g\<rparr>" by simp
  then show ?case by (metis play_loop.simps(1))
next
  case (Cons c cs)
  from run_round_result[of c g] obtain w r' where
    r: "run_detailed_betting_round c g = Some (Done w (g\<lparr>rng := r'\<rparr>))" by blast
  let ?g2 = "g\<lparr>rng := r', play_results := AList.update c w (play_results g)\<rparr>"
  show ?case
  proof (cases "ordago_active g")
    case True
    with r have "play_loop (c # cs) g = Some (Done () ?g2)" by simp
    then show ?thesis by blast
  next
    case False
    with r have "play_loop (c # cs) g = play_loop cs ?g2" by simp
    moreover from Cons[of ?g2] obtain pr r'' where
      "play_loop cs ?g2 = Some (Done () (?g2\<lparr>rng := r'', play_results := pr\<rparr>))" by blast
    ultimately have "play_loop (c # cs) g = Some (Done () (g\<lparr>rng := r'', play_results := pr\<rparr>))"
      by simp
    then show ?thesis by blast
  qed
qed

lemma scores_grow_refl: "scores_grow g g"
  by (simp add: scores_grow_def)

lemma scores_grow_trans: "scores_grow g g1 \<Longrightarrow> scores_grow g1 g2 \<Longrightarrow> scores_grow g g2"
  by (auto simp: scores_grow_def)

lemma scores_kept_grow: "scores_kept g g' \<Longrightarrow> scores_grow g g'"
  by (simp add: scores_kept_def scores_grow_def)

lemma resolve_ordago_state:
  "result_state (resolve_ordago g) = g\<lparr>hands_revealed := Some True\<rparr>"
  by (simp add: resolve_ordago_def Let_def split: sum.splits prod.splits)

lemma score_categories_mono:
  "score_categories cs g t0 t1 tot = Inr rs \<Longrightarrow> fst tot \<le> fst rs \<and> snd tot \<le> snd rs"
proof (induction cs arbitrary: tot)
  case Nil
  then show ?case by simp
next
  case (Cons c cs)
  from Cons.prems obtain tot' where
    t: "score_categories cs g t0 t1 tot' = Inr rs" "fst tot \<le> fst tot'" "snd tot \<le> snd tot'"
    by (auto simp: Let_def split: sum.splits if_splits)
  from Cons.IH[OF t(1)] t(2,3) show ?case by simp
qed

lemma score_round_cards: "cards_kept g (result_state (score_round g))"
proof (cases "resolve_ordago g")
  case (Done w g1)
  with resolve_ordago_state[of g] have "g1 = g\<lparr>hands_revealed := Some True\<rparr>" by simp
  with Done show ?thesis
    by (simp add: score_round_def cards_kept_def add_round_scores_def split: sum.splits prod.splits)
next
  case (Raised e g1)
  with resolve_ordago_state[of g] have "g1 = g\<lparr>hands_revealed := Some True\<rparr>" by simp
  with Raised show ?thesis
    by (simp add: score_round_def cards_kept_def add_round_scores_def split: sum.splits prod.splits)
qed

lemma score_round_scores: "scores_grow g (result_state (score_round g))"
proof (cases "teams g")
  case (Inl e)
  then show ?thesis by (simp add: score_round_def scores_grow_def)
next
  case (Inr ts)
  obtain t0 t1 where ts: "ts = (t0, t1)" by (cases ts)
  show ?thesis
  proof (cases "ordago_active g")
    case True
    show ?thesis
    proof (cases "resolve_ordago g")
      case (Done w g1)
      with resolve_ordago_state[of g] have "g1 = g\<lparr>hands_revealed := Some True\<rparr>" by simp
      with Done Inr ts True show ?thesis
        by (simp add: score_round_def scores_grow_def add_round_scores_def)
    next
      case (Raised e g1)
      with resolve_ordago_state[of g] have "g1 = g\<lparr>hands_revealed := Some True\<rparr>" by simp
      with Raised Inr ts True show ?thesis
        by (simp add: score_round_def scores_grow_def)
    qed
  next
    case False
    show ?thesis
    proof (cases "score_categories (play_categories g) g t0 t1 (0, 0)")
      case (Inl e)
      with Inr ts False show ?thesis by (simp add: score_round_def scores_grow_def)
    next
      case r: (Inr rs)
      from score_categories_mono[OF r] have "0 \<le> fst rs \<and> 0 \<le> snd rs" by simp
      with r Inr ts False show ?thesis
        by (simp add: score_round_def scores_grow_def add_round_scores_def)
    qed
  qed
qed

lemma start_play_phase_total:
  "\<exists>res. start_play_phase g = Some res \<and> cards_kept g (result_state res)
         \<and> scores_grow g (result_state res)"
proof -
  let ?g0 = "g\<lparr>current_phase := Play, play_categories := [Grande, Chica, Pares, Juego],
                play_results := []\<rparr>"
  from play_loop_result[of "[Grande, Chica, Pares, Juego]" ?g0] obtain pr r' where
    pl: "play_loop [Grande, Chica, Pares, Juego] ?g0
           = Some (Done () (?g0\<lparr>rng := r', play_results := pr\<rparr>))" by blast
  let ?g1 = "?g0\<lparr>rng := r', play_results := pr, current_phase := Scoring\<rparr>"
  from pl have s: "start_play_phase g = Some (score_round ?g1)"
    by (simp add: start_play_phase_def finish_play_phase_def)
  have "cards_kept ?g1 (result_state (score_round ?g1))" by (rule score_round_cards)
  then have c: "cards_kept g (result_state (score_round ?g1))" by (simp add: cards_kept_def)
  have "scores_grow ?g1 (result_state (score_round ?g1))" by (rule score_round_scores)
  then have "scores_grow g (result_state (score_round ?g1))" by (simp add: scores_grow_def)
  with s c show ?thesis by blast
qed

lemma cards_kept_total: "cards_kept g g' \<Longrightarrow> card_total g' = card_total g"
  by (simp add: cards_kept_def card_total_def)

lemma cards_kept_empty: "cards_kept g g' \<Longrightarrow> all_empty g \<Longrightarrow> all_empty g'"
  by (simp add: cards_kept_def all_empty_def)

lemma step_total:
  "\<exists>res. step acts g = Some res \<and> card_total (result_state res) = card_total g
         \<and> (all_empty g \<longrightarrow> all_empty (result_state res))
         \<and> scores_grow g (result_state res)"
proof (cases "current_phase g")
  case Deal
  then show ?thesis by (simp add: step_def scores_grow_refl)
next
  case Scoring
  then show ?thesis
    by (simp add: step_def finish_round_def scores_grow_def card_total_def all_empty_def)
next
  case Play
  from start_play_phase_total[of g] obtain res where
    r: "start_play_phase g = Some res" "cards_kept g (result_state res)"
       "scores_grow g (result_state res)" by blast
  have "\<exists>out. step acts g = Some out \<and> result_state out = result_state res"
    using Play r(1) by (cases res) (simp_all add: step_def)
  then show ?thesis
    using r(2,3) cards_kept_total[OF r(2)] cards_kept_empty[OF r(2)] by auto
next
  case Mus
  let ?m = "mus_actions acts [] g"
  from mus_actions_frame[of acts "[]" g] have
    f: "card_total (result_state ?m) = card_total g" "scores_kept g (result_state ?m)"
       "all_empty g \<longrightarrow> all_empty (result_state ?m)" by simp_all
  show ?thesis
  proof (cases ?m)
    case (Raised e g1)
    with Mus have "step acts g = Some (Raised e g1)" by (simp add: step_def)
    moreover from Raised have "result_state ?m = g1" by simp
    ultimately show ?thesis using f scores_kept_grow[OF f(2)] by auto
  next
    case (Done info g1)
    then have g1: "result_state ?m = g1" by simp
    from start_play_phase_total[of g1] obtain res where
      r: "start_play_phase g1 = Some res" "cards_kept g1 (result_state res)"
         "scores_grow g1 (result_state res)" by blast
    have "\<exists>out. step acts g = Some out \<and> result_state out = result_state res"
      using Mus Done r(1) by (cases res) (simp_all add: step_def)
    moreover have "scores_grow g (result_state res)"
      using scores_grow_trans[OF scores_kept_grow[OF f(2)]] g1 r(3) by simp
    ultimately show ?thesis
      using f g1 cards_kept_total[OF r(2)] cards_kept_empty[OF r(2)] by auto
  qed
qed

lemma apply_op_total:
  "\<exists>g'. apply_op x g = Some g' \<and> scores_grow g g'
        \<and> (x \<noteq> InitialDeal \<or> all_empty g \<longrightarrow> card_total g' = card_total g)
        \<and> (x \<noteq> InitialDeal \<and> all_empty g \<longrightarrow> all_empty g')"
proof (cases x)
  case InitialDeal
  then show ?thesis
    using initial_deal_cards[of g] scores_kept_grow[OF initial_deal_scores[of g]] by simp
next
  case (PerformDiscard p idxs)
  then show ?thesis
    using perform_discard_cards[of p idxs g] perform_discard_empty[of g p idxs]
      scores_kept_grow[OF perform_discard_scores[of g p idxs]] by simp
next
  case (Step acts)
  with step_total[of acts g] show ?thesis by auto
next
  case StartPlayPhase
  from start_play_phase_total[of g] obtain res where
    r: "start_play_phase g = Some res" "cards_kept g (result_state res)"
       "scores_grow g (result_state res)" by blast
  with StartPlayPhase show ?thesis
    using cards_kept_total[OF r(2)] cards_kept_empty[OF r(2)] by auto
next
  case ScoreRound
  then show ?thesis
    using score_round_scores[of g] cards_kept_total[OF score_round_cards[of g]]
      cards_kept_empty[OF score_round_cards[of g]] by auto
qed

lemma run_ops_cards:
  assumes "(all_empty g \<and> count_list ops InitialDeal \<le> 1) \<or> count_list ops InitialDeal = 0"
  shows "\<exists>g'. run_ops ops g = Some g' \<and> card_total g' = card_total g"
  using assms
proof (induction ops arbitrary: g)
  case Nil
  then show ?case by simp
next
  case (Cons x xs)
  from apply_op_total[of x g] obtain g1 where
    a: "apply_op x g = Some g1"
       "x \<noteq> InitialDeal \<or> all_empty g \<longrightarrow> card_total g1 = card_total g"
       "x \<noteq> InitialDeal \<and> all_empty g \<longrightarrow> all_empty g1" by blast
  show ?case
  proof (cases "x = InitialDeal")
    case True
    with Cons.prems have e: "all_empty g" and z: "count_list xs InitialDeal = 0" by auto
    from Cons.IH[of g1] z obtain g' where "run_ops xs g1 = Some g'" "card_total g' = card_total g1"
      by auto
    with a e show ?thesis by simp
  next
    case False
    with Cons.prems a(3) have
      "(all_empty g1 \<and> count_list xs InitialDeal \<le> 1) \<or> count_list xs InitialDeal = 0" by auto
    from Cons.IH[OF this] obtain g' where "run_ops xs g1 = Some g'" "card_total g' = card_total g1"
      by auto
    with a False show ?thesis by simp
  qed
qed

lemma run_ops_scores: "\<exists>g'. run_ops ops g = Some g' \<and> scores_grow g g'"
proof (induction ops arbitrary: g)
  case Nil
  then show ?case by (simp add: scores_grow_refl)
next
  case (Cons x xs)
  from apply_op_total[of x g] obtain g1 where a: "apply_op x g = Some g1" "scores_grow g g1" by blast
  from Cons[of g1] obtain g' where "run_ops xs g1 = Some g'" "scores_grow g1 g'" by blast
  with a scores_grow_trans[of g g1 g'] show ?case by simp
qed

lemma MusGame_init_cards:
  "card_total (MusGame_init n t c r) = 40" "all_empty (MusGame_init n t c r)"
proof -
  have "hand_sum (map (\<lambda>p. (p, [])) [0..<n]) = 0"
    by (simp add: hand_sum_def comp_def)
  then show "card_total (MusGame_init n t c r) = 40"
    by (simp add: card_total_def MusGame_init_def length_shuffle length_Deck_init)
  show "all_empty (MusGame_init n t c r)"
    by (auto simp: all_empty_def MusGame_init_def)
qed

section \<open>Properties of a partial game\<close>

lemma count_list_take: "count_list (take k xs) x \<le> count_list xs x"
proof (induction xs arbitrary: k)
  case Nil
  then show ?case by simp
next
  case (Cons a xs)
  show ?case
  proof (cases k)
    case 0
    then show ?thesis by simp
  next
    case (Suc j)
    with Cons[of j] show ?thesis by simp
  qed
qed

text \<open>
  Claim C2. A partial game is one \<open>MusGame\<close> instance, dealt once. Starting from a newly
  constructed game (any number of players, any random draws), after every prefix of every
  sequence of operations that contains \<open>initial_deal\<close> at most once (discards with their
  redraws and reshuffles, steps, play phases and scoring in any number and order), the
  operations so far have returned or raised and the deck, the discard pile and the hands
  together hold 40 cards.
\<close>

theorem card_conservation:
  assumes "count_list ops InitialDeal \<le> 1"
  shows "\<forall>k \<le> length ops. \<exists>g'. run_ops (take k ops) (MusGame_init n target chance r) = Some g'
                                  \<and> card_total g' = 40"
proof (intro allI impI)
  fix k assume "k \<le> length ops"
  have "count_list (take k ops) InitialDeal \<le> 1"
    using assms count_list_take[of k ops InitialDeal] by linarith
  with MusGame_init_cards(2)[of n target chance r]
  have "(all_empty (MusGame_init n target chance r) \<and> count_list (take k ops) InitialDeal \<le> 1)
        \<or> count_list (take k ops) InitialDeal = 0" by simp
  from run_ops_cards[OF this] MusGame_init_cards(1)[of n target chance r]
  show "\<exists>g'. run_ops (take k ops) (MusGame_init n target chance r) = Some g' \<and> card_total g' = 40"
    by simp
qed

text \<open>
  Claim C10. For a game whose \<open>target_score\<close> is not negative, every sequence of
  operations (\<open>initial_deal\<close>, \<open>perform_discard\<close>, \<open>step\<close>, \<open>start_play_phase\<close>,
  \<open>score_round\<close>) returns or raises, leaves both teams' scores at least what they were
  and \<open>target_score\<close> unchanged; so a game that was terminal stays terminal.
\<close>

theorem scores_never_decrease:
  assumes "0 \<le> target_score g"
  shows "\<exists>g'. run_ops ops g = Some g'
            \<and> fst (scores g) \<le> fst (scores g') \<and> snd (scores g) \<le> snd (scores g')
            \<and> target_score g' = target_score g
            \<and> (is_terminal g \<longrightarrow> is_terminal g')"
proof -
  from run_ops_scores[of ops g] obtain g' where
    r: "run_ops ops g = Some g'" "scores_grow g g'" by blast
  with assms have "fst (scores g) \<le> fst (scores g') \<and> snd (scores g) \<le> snd (scores g')
     \<and> target_score g' = target_score g" by (simp add: scores_grow_def)
  moreover from this have "is_terminal g \<longrightarrow> is_terminal g'"
    by (auto simp: is_terminal_def)
  ultimately show ?thesis using r(1) by blast
qed

lemma order_sum_keys:
  "order_sum hs ps = Inr s \<Longrightarrow> p \<in> set ps \<Longrightarrow> map_of hs p \<noteq> None"
  by (induction ps arbitrary: s) (auto split: option.splits sum.splits)

lemma set_py_set_pair: "set (py_set_pair a b) = {a, b}"
  by (auto simp: py_set_pair_def Let_def)

lemma teams_cover:
  assumes "teams g = Inr (t0, t1)" and "p < num_players g"
  shows "p \<in> set t0 \<or> p \<in> set t1"
proof -
  from assms(1) obtain m where m: "mano g = Some m" "num_players g \<noteq> 0"
    "t0 = py_set_pair m ((m + 2) mod num_players g)"
    "t1 = filter (\<lambda>p. p \<noteq> m \<and> p \<noteq> (m + 2) mod num_players g) [0..<num_players g]"
    by (auto simp: teams_def split: option.splits if_splits)
  from m(3) have "set t0 = {m, (m + 2) mod num_players g}" by (simp add: set_py_set_pair)
  with m(4) assms(2) show ?thesis by auto
qed

lemma teams_frame:
  "mano g' = mano g \<Longrightarrow> num_players g' = num_players g \<Longrightarrow> teams g' = teams g"
  by (simp add: teams_def split: option.splits)

lemma play_loop_ordago:
  assumes "ordago_active g"
  shows "\<exists>w r'. play_loop (c # cs) g
           = Some (Done () (g\<lparr>rng := r', play_results := AList.update c w (play_results g)\<rparr>))"
proof -
  from run_round_result[of c g] obtain w r' where
    "run_detailed_betting_round c g = Some (Done w (g\<lparr>rng := r'\<rparr>))" by blast
  with assms have "play_loop (c # cs) g
      = Some (Done () (g\<lparr>rng := r', play_results := AList.update c w (play_results g)\<rparr>))" by simp
  then show ?thesis by blast
qed

lemma score_round_ordago:
  assumes "ordago_active g" and "teams g = Inr (team0, team1)"
      and "order_sum (hands g) team0 = Inr s0" and "order_sum (hands g) team1 = Inr s1"
  shows "score_round g = Done ()
          (g\<lparr>hands_revealed := Some True,
              scores := (if s0 > s1 then (fst (scores g) + target_score g, snd (scores g))
                         else if s1 > s0 then (fst (scores g), snd (scores g) + target_score g)
                         else scores g),
              current_phase := Deal\<rparr>)"
proof -
  have all: "\<not> (\<exists>p \<in> set [0..<num_players g]. map_of (hands g) p = None)"
  proof
    assume "\<exists>p \<in> set [0..<num_players g]. map_of (hands g) p = None"
    then obtain p where p: "p < num_players g" "map_of (hands g) p = None" by auto
    from teams_cover[OF assms(2) p(1)] order_sum_keys[OF assms(3)] order_sum_keys[OF assms(4)] p(2)
    show False by blast
  qed
  have t: "teams (g\<lparr>hands_revealed := Some True\<rparr>) = Inr (team0, team1)"
    using assms(2) teams_frame[of "g\<lparr>hands_revealed := Some True\<rparr>" g] by simp
  have ro: "resolve_ordago g = Done (if s0 > s1 then Some 0 else if s1 > s0 then Some 1 else None)
               (g\<lparr>hands_revealed := Some True\<rparr>)"
    using all t assms(3,4) by (simp add: resolve_ordago_def Let_def)
  show ?thesis
    using assms(1,2) ro by (simp add: score_round_def add_round_scores_def)
qed

text \<open>
  A play phase entered with the all-in flag up: of any list of categories only the first
  gets a betting round and a result; \<open>start_play_phase\<close> records a result for grande
  alone and scores by the order sums \<open>s0\<close> and \<open>s1\<close> of the two teams.
\<close>

lemma flag_up_ends_play:
  assumes "ordago_active g" and "teams g = Inr (team0, team1)"
      and "order_sum (hands g) team0 = Inr s0" and "order_sum (hands g) team1 = Inr s1"
  shows "(\<forall>c cs. \<exists>w r'. play_loop (c # cs) g
            = Some (Done () (g\<lparr>rng := r', play_results := AList.update c w (play_results g)\<rparr>)))
       \<and> (\<exists>g'. start_play_phase g = Some (Done () g')
              \<and> map fst (play_results g') = [Grande]
              \<and> current_phase g' = Deal
              \<and> hands g' = hands g
              \<and> scores g' = (if s0 > s1 then (fst (scores g) + target_score g, snd (scores g))
                             else if s1 > s0 then (fst (scores g), snd (scores g) + target_score g)
                             else scores g))
       \<and> (\<forall>c cs g0 w g1. run_detailed_betting_round c g0 = Some (Done w g1) \<and> ordago_active g1 \<longrightarrow>
            play_loop (c # cs) g0
              = Some (Done () (g1\<lparr>play_results := AList.update c w (play_results g1)\<rparr>)))"
proof (intro conjI allI impI)
  fix c cs
  show "\<exists>w r'. play_loop (c # cs) g
            = Some (Done () (g\<lparr>rng := r', play_results := AList.update c w (play_results g)\<rparr>))"
    by (rule play_loop_ordago[OF assms(1)])
next
  fix c cs g0 w g1
  assume "run_detailed_betting_round c g0 = Some (Done w g1) \<and> ordago_active g1"
  then show "play_loop (c # cs) g0
              = Some (Done () (g1\<lparr>play_results := AList.update c w (play_results g1)\<rparr>))"
    by simp
next
  let ?g0 = "g\<lparr>current_phase := Play, play_categories := [Grande, Chica, Pares, Juego],
                play_results := []\<rparr>"
  have "ordago_active ?g0" using assms(1) by simp
  from play_loop_ordago[OF this, of Grande "[Chica, Pares, Juego]"] obtain w r' where
    pl: "play_loop [Grande, Chica, Pares, Juego] ?g0
           = Some (Done () (?g0\<lparr>rng := r', play_results := [(Grande, w)]\<rparr>))" by auto
  let ?g1 = "?g0\<lparr>rng := r', play_results := [(Grande, w)], current_phase := Scoring\<rparr>"
  from pl have s: "start_play_phase g = Some (score_round ?g1)"
    by (simp add: start_play_phase_def finish_play_phase_def)
  have "ordago_active ?g1" using assms(1) by simp
  moreover have "teams ?g1 = Inr (team0, team1)" using assms(2) teams_frame[of ?g1 g] by simp
  moreover have "order_sum (hands ?g1) team0 = Inr s0" "order_sum (hands ?g1) team1 = Inr s1"
    using assms(3,4) by simp_all
  ultimately have "score_round ?g1 = Done ()
          (?g1\<lparr>hands_revealed := Some True,
              scores := (if s0 > s1 then (fst (scores ?g1) + target_score ?g1, snd (scores ?g1))
                         else if s1 > s0 then (fst (scores ?g1), snd (scores ?g1) + target_score ?g1)
                         else scores ?g1),
              current_phase := Deal\<rparr>)"
    by (rule score_round_ordago)
  with s show "\<exists>g'. start_play_phase g = Some (Done () g')
              \<and> map fst (play_results g') = [Grande]
              \<and> current_phase g' = Deal
              \<and> hands g' = hands g
              \<and> scores g' = (if s0 > s1 then (fst (scores g) + target_score g, snd (scores g))
                             else if s1 > s0 then (fst (scores g), snd (scores g) + target_score g)
                             else scores g)"
    by simp
qed

text \<open>
  Witness for C2: a deal, a discard of two cards, a step that discards two more and plays
  the round, and a scoring, observed after one, two and all four operations.
\<close>

theorem card_conservation_witness:
  "(\<exists>g'. run_ops [InitialDeal] (MusGame_init 4 40 (1 / 5) (\<lambda>i. i)) = Some g' \<and> card_total g' = 40)
   \<and> (\<exists>g'. run_ops [InitialDeal, PerformDiscard 0 [1, 2]] (MusGame_init 4 40 (1 / 5) (\<lambda>i. i)) = Some g'
           \<and> card_total g' = 40)
   \<and> (\<exists>g'. run_ops [InitialDeal, PerformDiscard 0 [1, 2],
                     Step [(1, \<lparr>act_type = Some 0, act_cards = Some [1, 0, 0, 1], act_signal = None\<rparr>)],
                     ScoreRound]
              (MusGame_init 4 40 (1 / 5) (\<lambda>i. i)) = Some g'
           \<and> card_total g' = 40)"
proof -
  let ?ops = "[InitialDeal, PerformDiscard 0 [1, 2],
               Step [(1, \<lparr>act_type = Some 0, act_cards = Some [1, 0, 0, 1], act_signal = None\<rparr>)],
               ScoreRound]"
  have c: "count_list ?ops InitialDeal \<le> 1" by simp
  note w = card_conservation[OF c, of 4 40 "1 / 5" "\<lambda>i. i", rule_format]
  from w[of 1] w[of 2] w[of 4] show ?thesis by simp
qed

text \<open>
  Witness for C10: a new game with target 40 that is dealt, stepped and played; and a
  game already terminal (scores 40 and 3) that is played, scored and dealt again.
\<close>

theorem scores_never_decrease_witness:
  "(\<exists>g'. run_ops [InitialDeal, Step [], StartPlayPhase] (MusGame_init 4 40 (1 / 5) (\<lambda>i. i)) = Some g'
         \<and> 0 \<le> fst (scores g') \<and> 0 \<le> snd (scores g') \<and> target_score g' = 40)
   \<and> (\<exists>g'. run_ops [StartPlayPhase, ScoreRound, InitialDeal]
              (fixture_game (fixture_hands []) False (40, 3)) = Some g'
           \<and> is_terminal g')"
proof -
  let ?g0 = "MusGame_init 4 40 (1 / 5) (\<lambda>i. i)"
  let ?g1 = "fixture_game (fixture_hands []) False (40, 3)"
  have s0: "scores ?g0 = (0, 0)" "target_score ?g0 = 40" by (simp_all add: MusGame_init_def)
  then have h0: "0 \<le> target_score ?g0" by simp
  from scores_never_decrease[OF h0, of "[InitialDeal, Step [], StartPlayPhase]"] obtain ga where
    a: "run_ops [InitialDeal, Step [], StartPlayPhase] ?g0 = Some ga"
       "fst (scores ?g0) \<le> fst (scores ga)" "snd (scores ?g0) \<le> snd (scores ga)"
       "target_score ga = target_score ?g0" by blast
  from a(2-4) s0 have a': "0 \<le> fst (scores ga)" "0 \<le> snd (scores ga)" "target_score ga = 40"
    by simp_all
  have h1: "0 \<le> target_score ?g1" and t1: "is_terminal ?g1"
    by (simp_all add: fixture_game_def is_terminal_def)
  from scores_never_decrease[OF h1, of "[StartPlayPhase, ScoreRound, InitialDeal]"] t1 obtain gb where
    b: "run_ops [StartPlayPhase, ScoreRound, InitialDeal] ?g1 = Some gb" "is_terminal gb" by blast
  from a(1) a' b show ?thesis by blast
qed

text \<open>
  Two such games: order sums 41 against 47 give team 1 the 40 points; 41 against 41 leave
  the scores at (0, 0). Only grande has a result in either case.
\<close>

lemma flag_up_ends_play_examples:
  "(\<exists>g'. start_play_phase
            (fixture_game (fixture_hands [Card Three Oros, Card Three Copas, Card Seven Copas, Card Six Copas])
               True (0, 0)) = Some (Done () g')
         \<and> map fst (play_results g') = [Grande] \<and> scores g' = (0, 40))
   \<and> (\<exists>g'. start_play_phase
            (fixture_game (fixture_hands [Card Three Oros, Card Three Copas, Card Four Copas, Card Ace Bastos])
               True (0, 0)) = Some (Done () g')
         \<and> map fst (play_results g') = [Grande] \<and> scores g' = (0, 0))"
proof -
  let ?ga = "fixture_game (fixture_hands [Card Three Oros, Card Three Copas, Card Seven Copas, Card Six Copas])
               True (0, 0)"
  let ?gb = "fixture_game (fixture_hands [Card Three Oros, Card Three Copas, Card Four Copas, Card Ace Bastos])
               True (0, 0)"
  have ta: "teams ?ga = Inr ([0, 2], [1, 3])" and tb: "teams ?gb = Inr ([0, 2], [1, 3])"
    by (simp_all add: teams_def fixture_game_def upt_rec py_set_pair_def py_hash_def)
  have a0: "order_sum (hands ?ga) [0, 2] = Inr 41" and a1: "order_sum (hands ?ga) [1, 3] = Inr 47"
    by (simp_all add: fixture_game_def fixture_hands_def card_order_def)
  have b0: "order_sum (hands ?gb) [0, 2] = Inr 41" and b1: "order_sum (hands ?gb) [1, 3] = Inr 41"
    by (simp_all add: fixture_game_def fixture_hands_def card_order_def)
  have oa: "ordago_active ?ga" and ob: "ordago_active ?gb" by (simp_all add: fixture_game_def)
  have 1: "\<exists>g'. start_play_phase ?ga = Some (Done () g')
         \<and> map fst (play_results g') = [Grande] \<and> scores g' = (0, 40)"
    using flag_up_ends_play[OF oa ta a0 a1, THEN conjunct2, THEN conjunct1]
    by (auto simp add: fixture_game_def)
  have 2: "\<exists>g'. start_play_phase ?gb = Some (Done () g')
         \<and> map fst (play_results g') = [Grande] \<and> scores g' = (0, 0)"
    using flag_up_ends_play[OF ob tb b0 b1, THEN conjunct2, THEN conjunct1]
    by (auto simp add: fixture_game_def)
  from 1 2 show ?thesis by blast
qed

text \<open>
  The hypothesis of one deal per instance is needed: \<open>initial_deal\<close> overwrites the hands,
  so dealing again to a player who holds a card loses that card.
\<close>

lemma second_deal_drops_hands:
  "card_total (fixture_game [(0, [Card King Oros])] False (0, 0)
                 \<lparr>num_players := 1, deck := [Card Ace Oros, Card Two Oros]\<rparr>) = 3
   \<and> card_total (result_state (initial_deal
        (fixture_game [(0, [Card King Oros])] False (0, 0)
           \<lparr>num_players := 1, deck := [Card Ace Oros, Card Two Oros]\<rparr>))) = 2"
  by (simp add: fixture_game_def card_total_def hand_sum_def initial_deal_def determine_mano_def
        set_turn_order_def draw_from_deck_def reshuffle_if_short_def deal_def slice_point_def
        shuffle_def randbelow_def Let_def card_order_def)

section \<open>An all-in on a round that is still open\<close>

lemma no_ordago_update:
  assumes "no_ordago br" and "v \<noteq> Some OrdagoBet"
      and "bets br' = AList.update p v (bets br)"
  shows "no_ordago br'"
proof -
  have "set (bets br') \<subseteq> insert (p, v) (set (bets br))"
    using assms(3) set_update_subset[of p v "bets br"] by simp
  with assms(1,2) show ?thesis by (auto simp: no_ordago_def)
qed

lemma finished_or_no_ordago_step:
  assumes "finished br \<or> no_ordago br" and "player_action br p act amt = Inr br'"
  shows "finished br' \<or> no_ordago br'"
proof (cases "map_of (active br) p")
  case None
  with assms(2) show ?thesis by (simp add: player_action_def)
next
  case (Some b)
  show ?thesis
  proof (cases b)
    case False
    with Some assms show ?thesis by (simp add: player_action_def)
  next
    case True
    with Some have a: "map_of (active br) p = Some True" by simp
    show ?thesis
    proof (cases "act \<in> {Bet, Raise, Call}")
      case True
      from player_action_numeric[OF a True, of amt] assms(2) obtain x where
        "bets br' = AList.update p (Some (Amount x)) (bets br)" "finished br' = finished br"
        by auto
      with assms(1) no_ordago_update[of br "Some (Amount x)" br' p] show ?thesis by auto
    next
      case False
      then consider "act = Pass" | "act = Ordago" | "act = OtherAction" by (cases act) auto
      then show ?thesis
      proof cases
        case 1
        with a assms show ?thesis by (auto simp: player_action_def no_ordago_def)
      next
        case 2
        with a assms(2) show ?thesis by (auto simp: player_action_def)
      next
        case 3
        with a assms show ?thesis by (auto simp: player_action_def)
      qed
    qed
  qed
qed

lemma run_actions_finished_or_no_ordago:
  "finished br \<or> no_ordago br \<Longrightarrow> run_actions br acts = Inr br' \<Longrightarrow> finished br' \<or> no_ordago br'"
proof (induction acts arbitrary: br)
  case Nil
  then show ?case by simp
next
  case (Cons a acts)
  obtain p act amt where a: "a = (p, act, amt)" by (cases a)
  from Cons.prems(2) a obtain br1 where
    s: "player_action br p act amt = Inr br1" "run_actions br1 acts = Inr br'"
    by (auto split: sum.splits)
  from finished_or_no_ordago_step[OF Cons.prems(1) s(1)] have "finished br1 \<or> no_ordago br1" .
  from Cons.IH[OF this s(2)] show ?case .
qed

text \<open>
  Claim C4. Take any round built by the constructor and brought to its present state by
  any sequence of \<open>player_action\<close> calls, and still open (\<open>finished\<close> unset). An
  \<open>ordago\<close> by an active player then records the all-in sentinel as that player's bet
  and sets \<open>finished\<close>, whatever bets the other players hold, and \<open>get_winner\<close> returns
  that player with the outcome \<open>'ordago'\<close>: the all-in check comes before the comparison
  of the numeric bets.
\<close>

theorem ordago_wins_round:
  assumes "run_actions (BettingRound_init ps pt ib) acts = Inr br"
      and "\<not> finished br"
      and "map_of (active br) p = Some True"
  shows "\<exists>br'. player_action br p Ordago amount = Inr br'
           \<and> map_of (bets br') p = Some (Some OrdagoBet)
           \<and> finished br'
           \<and> get_winner br' = (Some p, Some OrdagoBet)"
proof -
  have "finished (BettingRound_init ps pt ib) \<or> no_ordago (BettingRound_init ps pt ib)"
    using no_bets_no_ordago[OF init_no_bets] by simp
  from run_actions_finished_or_no_ordago[OF this assms(1)] assms(2)
  have "\<forall>q. (q, Some OrdagoBet) \<notin> set (bets br)" by (simp add: no_ordago_def)
  with ordago_action_any_round[OF assms(3), of amount] show ?thesis by auto
qed

text \<open>
  Witness for C4: in a round of three, player 0 bets and player 2 raises by 2; player 1
  then goes all-in and wins over the recorded bets 1 and 3.
\<close>

theorem ordago_wins_round_witness:
  "run_actions (BettingRound_init [0, 1, 2] Pares 1) [(0, Bet, 0), (2, Raise, 2)] =
     Inr \<lparr>players = [0, 1, 2], play_type = Pares, current_bet = 3,
          bets = [(0, Some (Amount 1)), (1, None), (2, Some (Amount 3))],
          active = [(0, True), (1, True), (2, True)],
          last_raiser = Some 2, finished = False\<rparr>
   \<and> player_action \<lparr>players = [0, 1, 2], play_type = Pares, current_bet = 3,
          bets = [(0, Some (Amount 1)), (1, None), (2, Some (Amount 3))],
          active = [(0, True), (1, True), (2, True)],
          last_raiser = Some 2, finished = False\<rparr> 1 Ordago 0 =
     Inr \<lparr>players = [0, 1, 2], play_type = Pares, current_bet = 3,
          bets = [(0, Some (Amount 1)), (1, Some OrdagoBet), (2, Some (Amount 3))],
          active = [(0, True), (1, True), (2, True)],
          last_raiser = Some 2, finished = True\<rparr>
   \<and> get_winner \<lparr>players = [0, 1, 2], play_type = Pares, current_bet = 3,
          bets = [(0, Some (Amount 1)), (1, Some OrdagoBet), (2, Some (Amount 3))],
          active = [(0, True), (1, True), (2, True)],
          last_raiser = Some 2, finished = True\<rparr> = (Some 1, Some OrdagoBet)"
proof -
  let ?br = "\<lparr>players = [0, 1, 2], play_type = Pares, current_bet = 3,
          bets = [(0::nat, Some (Amount 1)), (1, None), (2, Some (Amount 3))],
          active = [(0::nat, True), (1, True), (2, True)],
          last_raiser = Some 2, finished = False\<rparr>"
  let ?br' = "\<lparr>players = [0, 1, 2], play_type = Pares, current_bet = 3,
          bets = [(0::nat, Some (Amount 1)), (1, Some OrdagoBet), (2, Some (Amount 3))],
          active = [(0::nat, True), (1, True), (2, True)],
          last_raiser = Some 2, finished = True\<rparr>"
  have r: "run_actions (BettingRound_init [0, 1, 2] Pares 1) [(0, Bet, 0), (2, Raise, 2)] = Inr ?br"
    by (simp add: BettingRound_init_def dict_from_keys_def player_action_def)
  have f: "\<not> finished ?br" and a: "map_of (active ?br) 1 = Some True" by simp_all
  from ordago_wins_round[OF r f a, of 0] obtain br' where
    b: "player_action ?br 1 Ordago 0 = Inr br'" "get_winner br' = (Some 1, Some OrdagoBet)" by blast
  have "player_action ?br 1 Ordago 0 = Inr ?br'" by (simp add: player_action_def)
  with b have "br' = ?br'" by simp
  with b r show ?thesis by simp
qed

section \<open>Four of a kind\<close>

text \<open>
  Claim C5. The claim holds for two different pairs, three of a kind, a single pair and
  no pair, and for the two hands it names (\<open>evaluate_pairs_cases\<close>). For four of a kind
  the code returns category 3 with a single tie-break value where duples carry the two
  pair orders: four Kings evaluate to (3, 9), not (3, 9, 9). As a proper prefix that
  tuple is smaller than the (3, 9, 2) of Three, Three, Ace, Ace, so the comparison of
  pares in \<open>score_round\<close> prefers the two pairs to the four Kings.
\<close>

theorem four_of_a_kind_payload:
  "evaluate_pairs [Card King Oros, Card King Copas, Card King Espadas, Card King Bastos] = [3, 9]
   \<and> evaluate_pairs [Card Three Oros, Card Three Copas, Card Ace Oros, Card Ace Copas] = [3, 9, 2]
   \<and> tuple_lt (evaluate_pairs [Card King Oros, Card King Copas, Card King Espadas, Card King Bastos])
               (evaluate_pairs [Card Three Oros, Card Three Copas, Card Ace Oros, Card Ace Copas])
   \<and> best_player Pares
        [(0, evaluate_pairs [Card King Oros, Card King Copas, Card King Espadas, Card King Bastos]),
         (1, evaluate_pairs [Card Three Oros, Card Three Copas, Card Ace Oros, Card Ace Copas])]
       = Inr 1"
proof -
  have k: "evaluate_pairs [Card King Oros, Card King Copas, Card King Espadas, Card King Bastos] = [3, 9]"
    using ep_quads[of King] by simp
  have t: "evaluate_pairs [Card Three Oros, Card Three Copas, Card Ace Oros, Card Ace Copas] = [3, 9, 2]"
    using ep_duples(1)[of Three Ace] by simp
  show ?thesis unfolding k t by (simp add: best_player_def)
qed

section \<open>An all-in declared in a category\<close>

lemma find_ordago_mem:
  "find (\<lambda>pb. snd pb = Some OrdagoBet) bs = Some pb \<Longrightarrow> pb \<in> set bs"
  by (induction bs) (auto split: if_splits)

lemma get_winner_sentinel:
  assumes "(q, Some OrdagoBet) \<in> set (bets br)"
  shows "\<exists>w. get_winner br = (Some w, Some OrdagoBet) \<and> (w, Some OrdagoBet) \<in> set (bets br)"
proof -
  from assms have "find (\<lambda>pb. snd pb = Some OrdagoBet) (bets br) \<noteq> None"
    by (auto simp: find_ordago_None)
  then obtain pb where pb: "find (\<lambda>pb. snd pb = Some OrdagoBet) (bets br) = Some pb" by blast
  from find_ordago_snd[OF pb] find_ordago_mem[OF pb] have "(fst pb, Some OrdagoBet) \<in> set (bets br)"
    by (metis prod.collapse)
  moreover from pb have "get_winner br = (Some (fst pb), Some OrdagoBet)"
    by (simp add: get_winner_def)
  ultimately show ?thesis by blast
qed

text \<open>
  Claim C3. An all-in is declared in a category when the betting round of that category
  ends holding the all-in sentinel. The code of the orchestrator that follows the round
  then does what the claim says, from any game \<open>g\<close>, flag up or down: the end of
  \<open>run_detailed_betting_round\<close> returns the all-in player \<open>w\<close> with the outcome
  \<open>'ordago'\<close> and raises the flag; the rest of the loop body stores that result and
  breaks, whatever categories remain, so none of them gets a betting round or a result;
  and the end of \<open>start_play_phase\<close> scores by the sums \<open>s0\<close> and \<open>s1\<close> of the card
  orders over the hands of team 0 and team 1, giving the whole \<open>target_score\<close> to the
  strictly larger sum and nothing to either team on equal sums.
\<close>

theorem declared_ordago_ends_play:
  assumes "(q, Some OrdagoBet) \<in> set (bets br)"
      and "teams g = Inr (team0, team1)"
      and "order_sum (hands g) team0 = Inr s0" and "order_sum (hands g) team1 = Inr s1"
  shows "\<exists>w. (w, Some OrdagoBet) \<in> set (bets br)
           \<and> settle_round br g
               = ((Some w, Some OrdagoBet), g\<lparr>ordago_active := True, ordago_player := Some w\<rparr>)
           \<and> (\<forall>play rest.
                 after_round play rest (Some w, Some OrdagoBet)
                   (g\<lparr>ordago_active := True, ordago_player := Some w\<rparr>)
                 = Some (Done () (g\<lparr>ordago_active := True, ordago_player := Some w,
                      play_results := AList.update play (Some w, Some OrdagoBet) (play_results g)\<rparr>)))
           \<and> (\<forall>pr.
                 finish_play_phase (g\<lparr>ordago_active := True, ordago_player := Some w,
                                      play_results := pr\<rparr>)
                 = Done () (g\<lparr>ordago_active := True, ordago_player := Some w, play_results := pr,
                      hands_revealed := Some True,
                      scores := (if s0 > s1 then (fst (scores g) + target_score g, snd (scores g))
                                 else if s1 > s0 then (fst (scores g), snd (scores g) + target_score g)
                                 else scores g),
                      current_phase := Deal\<rparr>))"
proof -
  from get_winner_sentinel[OF assms(1)] obtain w where
    w: "get_winner br = (Some w, Some OrdagoBet)" "(w, Some OrdagoBet) \<in> set (bets br)" by blast
  let ?g1 = "g\<lparr>ordago_active := True, ordago_player := Some w\<rparr>"
  have 1: "settle_round br g = ((Some w, Some OrdagoBet), ?g1)"
    using w(1) by (simp add: settle_round_def)
  have 2: "\<forall>play rest. after_round play rest (Some w, Some OrdagoBet) ?g1
             = Some (Done () (g\<lparr>ordago_active := True, ordago_player := Some w,
                  play_results := AList.update play (Some w, Some OrdagoBet) (play_results g)\<rparr>))"
    by simp
  have 3: "\<forall>pr. finish_play_phase (g\<lparr>ordago_active := True, ordago_player := Some w,
                                      play_results := pr\<rparr>)
                 = Done () (g\<lparr>ordago_active := True, ordago_player := Some w, play_results := pr,
                      hands_revealed := Some True,
                      scores := (if s0 > s1 then (fst (scores g) + target_score g, snd (scores g))
                                 else if s1 > s0 then (fst (scores g), snd (scores g) + target_score g)
                                 else scores g),
                      current_phase := Deal\<rparr>)"
  proof
    fix pr
    let ?g2 = "g\<lparr>ordago_active := True, ordago_player := Some w, play_results := pr,
                  current_phase := Scoring\<rparr>"
    have "ordago_active ?g2" by simp
    moreover have "teams ?g2 = Inr (team0, team1)" using assms(2) teams_frame[of ?g2 g] by simp
    moreover have "order_sum (hands ?g2) team0 = Inr s0" "order_sum (hands ?g2) team1 = Inr s1"
      using assms(3,4) by simp_all
    ultimately have "score_round ?g2 = Done ()
          (?g2\<lparr>hands_revealed := Some True,
              scores := (if s0 > s1 then (fst (scores ?g2) + target_score ?g2, snd (scores ?g2))
                         else if s1 > s0 then (fst (scores ?g2), snd (scores ?g2) + target_score ?g2)
                         else scores ?g2),
              current_phase := Deal\<rparr>)"
      by (rule score_round_ordago)
    then show "finish_play_phase (g\<lparr>ordago_active := True, ordago_player := Some w,
                                      play_results := pr\<rparr>)
                 = Done () (g\<lparr>ordago_active := True, ordago_player := Some w, play_results := pr,
                      hands_revealed := Some True,
                      scores := (if s0 > s1 then (fst (scores g) + target_score g, snd (scores g))
                                 else if s1 > s0 then (fst (scores g), snd (scores g) + target_score g)
                                 else scores g),
                      current_phase := Deal\<rparr>)"
      by (simp add: finish_play_phase_def)
  qed
  from w(2) 1 2 3 show ?thesis by blast
qed

text \<open>
  Witness for C3. Player 1 goes all-in in the grande round of four players; the game has
  its flag down. The round is settled with player 1 as winner and the flag up, the loop
  stops with a result for grande only, and the scoring gives team 1 the 40 points when
  the order sums are 41 against 47 and leaves (0, 0) when they are 41 against 41.
\<close>

theorem declared_ordago_ends_play_witness:
  "player_action (BettingRound_init [0, 1, 2, 3] Grande 1) 1 Ordago 0 =
     Inr \<lparr>players = [0, 1, 2, 3], play_type = Grande, current_bet = 1,
          bets = [(0, None), (1, Some OrdagoBet), (2, None), (3, None)],
          active = [(0, True), (1, True), (2, True), (3, True)],
          last_raiser = None, finished = True\<rparr>
   \<and> \<not> ordago_active
        (fixture_game (fixture_hands [Card Three Oros, Card Three Copas, Card Seven Copas, Card Six Copas])
           False (0, 0))
   \<and> (\<exists>g1. settle_round \<lparr>players = [0, 1, 2, 3], play_type = Grande, current_bet = 1,
                 bets = [(0, None), (1, Some OrdagoBet), (2, None), (3, None)],
                 active = [(0, True), (1, True), (2, True), (3, True)],
                 last_raiser = None, finished = True\<rparr>
               (fixture_game (fixture_hands [Card Three Oros, Card Three Copas, Card Seven Copas, Card Six Copas])
                  False (0, 0))
             = ((Some 1, Some OrdagoBet), g1)
           \<and> ordago_active g1
           \<and> after_round Grande [Chica, Pares, Juego] (Some 1, Some OrdagoBet) g1
               = Some (Done () (g1\<lparr>play_results := [(Grande, Some 1, Some OrdagoBet)]\<rparr>))
           \<and> scores (result_state (finish_play_phase
                 (g1\<lparr>play_results := [(Grande, Some 1, Some OrdagoBet)]\<rparr>))) = (0, 40))
   \<and> (\<exists>g1. settle_round \<lparr>players = [0, 1, 2, 3], play_type = Grande, current_bet = 1,
                 bets = [(0, None), (1, Some OrdagoBet), (2, None), (3, None)],
                 active = [(0, True), (1, True), (2, True), (3, True)],
                 last_raiser = None, finished = True\<rparr>
               (fixture_game (fixture_hands [Card Three Oros, Card Three Copas, Card Four Copas, Card Ace Bastos])
                  False (0, 0))
             = ((Some 1, Some OrdagoBet), g1)
           \<and> scores (result_state (finish_play_phase
                 (g1\<lparr>play_results := [(Grande, Some 1, Some OrdagoBet)]\<rparr>))) = (0, 0))"
proof -
  let ?br = "\<lparr>players = [0, 1, 2, 3], play_type = Grande, current_bet = 1,
          bets = [(0::nat, None), (1, Some OrdagoBet), (2, None), (3, None)],
          active = [(0::nat, True), (1, True), (2, True), (3, True)],
          last_raiser = None, finished = True\<rparr>"
  let ?ga = "fixture_game (fixture_hands [Card Three Oros, Card Three Copas, Card Seven Copas, Card Six Copas])
               False (0, 0)"
  let ?gb = "fixture_game (fixture_hands [Card Three Oros, Card Three Copas, Card Four Copas, Card Ace Bastos])
               False (0, 0)"
  have pa: "player_action (BettingRound_init [0, 1, 2, 3] Grande 1) 1 Ordago 0 = Inr ?br"
    by (simp add: BettingRound_init_def dict_from_keys_def player_action_def)
  have fd: "\<not> ordago_active ?ga" by (simp add: fixture_game_def)
  have s: "(1, Some OrdagoBet) \<in> set (bets ?br)" by simp
  have only: "\<And>w. (w, Some OrdagoBet) \<in> set (bets ?br) \<Longrightarrow> w = 1" by auto
  have ta: "teams ?ga = Inr ([0, 2], [1, 3])" and tb: "teams ?gb = Inr ([0, 2], [1, 3])"
    by (simp_all add: teams_def fixture_game_def upt_rec py_set_pair_def py_hash_def)
  have a0: "order_sum (hands ?ga) [0, 2] = Inr 41" and a1: "order_sum (hands ?ga) [1, 3] = Inr 47"
    by (simp_all add: fixture_game_def fixture_hands_def card_order_def)
  have b0: "order_sum (hands ?gb) [0, 2] = Inr 41" and b1: "order_sum (hands ?gb) [1, 3] = Inr 41"
    by (simp_all add: fixture_game_def fixture_hands_def card_order_def)
  have sa: "scores ?ga = (0, 0)" "target_score ?ga = 40" "play_results ?ga = []"
    and sb: "scores ?gb = (0, 0)" "target_score ?gb = 40"
    by (simp_all add: fixture_game_def)
  from declared_ordago_ends_play[OF s ta a0 a1] obtain w where
    wa: "(w, Some OrdagoBet) \<in> set (bets ?br)"
        "settle_round ?br ?ga = ((Some w, Some OrdagoBet), ?ga\<lparr>ordago_active := True, ordago_player := Some w\<rparr>)"
        "\<forall>play rest. after_round play rest (Some w, Some OrdagoBet)
                   (?ga\<lparr>ordago_active := True, ordago_player := Some w\<rparr>)
                 = Some (Done () (?ga\<lparr>ordago_active := True, ordago_player := Some w,
                      play_results := AList.update play (Some w, Some OrdagoBet) (play_results ?ga)\<rparr>))"
        "\<forall>pr. finish_play_phase (?ga\<lparr>ordago_active := True, ordago_player := Some w,
                                      play_results := pr\<rparr>)
                 = Done () (?ga\<lparr>ordago_active := True, ordago_player := Some w, play_results := pr,
                      hands_revealed := Some True,
                      scores := (if (41::int) > 47 then (fst (scores ?ga) + target_score ?ga, snd (scores ?ga))
                                 else if (47::int) > 41 then (fst (scores ?ga), snd (scores ?ga) + target_score ?ga)
                                 else scores ?ga),
                      current_phase := Deal\<rparr>)"
    by blast
  from only[OF wa(1)] have w1: "w = 1" .
  let ?g1 = "?ga\<lparr>ordago_active := True, ordago_player := Some 1\<rparr>"
  have A: "settle_round ?br ?ga = ((Some 1, Some OrdagoBet), ?g1) \<and> ordago_active ?g1
           \<and> after_round Grande [Chica, Pares, Juego] (Some 1, Some OrdagoBet) ?g1
               = Some (Done () (?g1\<lparr>play_results := [(Grande, Some 1, Some OrdagoBet)]\<rparr>))
           \<and> scores (result_state (finish_play_phase
                 (?g1\<lparr>play_results := [(Grande, Some 1, Some OrdagoBet)]\<rparr>))) = (0, 40)"
    using wa(2) wa(3)[rule_format, of Grande "[Chica, Pares, Juego]"]
          wa(4)[rule_format, of "[(Grande, Some 1, Some OrdagoBet)]"] w1 sa
    by simp
  from declared_ordago_ends_play[OF s tb b0 b1] obtain w' where
    wb: "(w', Some OrdagoBet) \<in> set (bets ?br)"
        "settle_round ?br ?gb = ((Some w', Some OrdagoBet), ?gb\<lparr>ordago_active := True, ordago_player := Some w'\<rparr>)"
        "\<forall>pr. finish_play_phase (?gb\<lparr>ordago_active := True, ordago_player := Some w',
                                      play_results := pr\<rparr>)
                 = Done () (?gb\<lparr>ordago_active := True, ordago_player := Some w', play_results := pr,
                      hands_revealed := Some True,
                      scores := (if (41::int) > 41 then (fst (scores ?gb) + target_score ?gb, snd (scores ?gb))
                                 else if (41::int) > 41 then (fst (scores ?gb), snd (scores ?gb) + target_score ?gb)
                                 else scores ?gb),
                      current_phase := Deal\<rparr>)"
    by blast
  from only[OF wb(1)] have w2: "w' = 1" .
  let ?g1b = "?gb\<lparr>ordago_active := True, ordago_player := Some 1\<rparr>"
  have B: "settle_round ?br ?gb = ((Some 1, Some OrdagoBet), ?g1b)
           \<and> scores (result_state (finish_play_phase
                 (?g1b\<lparr>play_results := [(Grande, Some 1, Some OrdagoBet)]\<rparr>))) = (0, 0)"
    using wb(2) wb(3)[rule_format, of "[(Grande, Some 1, Some OrdagoBet)]"] w2 sb
    by simp
  from pa fd A B show ?thesis by blast
qed

end
